theory Spec2Isabelle
  imports Main "HOL-Library.Sublist"
begin

section \<open>JavaScript values, strings and object literals\<close>

text \<open>
  The program is JavaScript: \<^verbatim>\<open>lib/sources/policy-questions.js\<close>, the
  \<^verbatim>\<open>/next-task\<close> command (argument handling and resume) and the
  \<^verbatim>\<open>discover-tasks\<close> skill (filtering, scoring and ranking of tasks).
  Strings are lists of 8-bit code units, read as the first 256 UTF-16 code units
  (Latin-1). An exception is a value of \<open>js_error\<close>; a function that can throw
  returns \<open>js_error + 'a\<close>.
\<close>

datatype js_error = TypeError | SyntaxError | Error string

text \<open>
  The values a task's \<^verbatim>\<open>number\<close> and \<^verbatim>\<open>id\<close> take: absent, an
  integer-valued number (issue numbers; below \<open>10^21\<close>, where \<^verbatim>\<open>String\<close>
  prints plain decimals) or a string.
\<close>

datatype jsval = JUndefined | JNum int | JStr string

definition truthy :: "jsval \<Rightarrow> bool" where
  "truthy v = (case v of JUndefined \<Rightarrow> False | JNum n \<Rightarrow> n \<noteq> 0 | JStr s \<Rightarrow> s \<noteq> [])"

text \<open>\<^verbatim>\<open>a || b\<close>\<close>

definition js_or :: "jsval \<Rightarrow> jsval \<Rightarrow> jsval" where
  "js_or a b = (if truthy a then a else b)"

fun dec :: "nat \<Rightarrow> string" where
  "dec n = (if n < 10 then [''0123456789'' ! n]
            else dec (n div 10) @ [''0123456789'' ! (n mod 10)])"

declare dec.simps [simp del]

text \<open>\<^verbatim>\<open>String(v)\<close>\<close>

definition js_String :: "jsval \<Rightarrow> string" where
  "js_String v = (case v of
      JUndefined \<Rightarrow> ''undefined''
    | JNum n \<Rightarrow> (if n < 0 then CHR ''-'' # dec (nat (- n)) else dec (nat n))
    | JStr s \<Rightarrow> s)"

text \<open>
  \<^verbatim>\<open>String.prototype.toLowerCase\<close> on Latin-1: the letters A-Z and the
  accented capitals 0xC0-0xDE (0xD7, the multiplication sign, is not a letter) move up
  by 32; every other code unit stays.
\<close>

definition upper_chars :: string where
  "upper_chars = ''ABCDEFGHIJKLMNOPQRSTUVWXYZ'' @
     [CHR 0xC0, CHR 0xC1, CHR 0xC2, CHR 0xC3, CHR 0xC4, CHR 0xC5, CHR 0xC6, CHR 0xC7,
      CHR 0xC8, CHR 0xC9, CHR 0xCA, CHR 0xCB, CHR 0xCC, CHR 0xCD, CHR 0xCE, CHR 0xCF,
      CHR 0xD0, CHR 0xD1, CHR 0xD2, CHR 0xD3, CHR 0xD4, CHR 0xD5, CHR 0xD6,
      CHR 0xD8, CHR 0xD9, CHR 0xDA, CHR 0xDB, CHR 0xDC, CHR 0xDD, CHR 0xDE]"

definition lower_chars :: string where
  "lower_chars = ''abcdefghijklmnopqrstuvwxyz'' @
     [CHR 0xE0, CHR 0xE1, CHR 0xE2, CHR 0xE3, CHR 0xE4, CHR 0xE5, CHR 0xE6, CHR 0xE7,
      CHR 0xE8, CHR 0xE9, CHR 0xEA, CHR 0xEB, CHR 0xEC, CHR 0xED, CHR 0xEE, CHR 0xEF,
      CHR 0xF0, CHR 0xF1, CHR 0xF2, CHR 0xF3, CHR 0xF4, CHR 0xF5, CHR 0xF6,
      CHR 0xF8, CHR 0xF9, CHR 0xFA, CHR 0xFB, CHR 0xFC, CHR 0xFD, CHR 0xFE]"

definition lower_char :: "char \<Rightarrow> char" where
  "lower_char c = (case map_of (zip upper_chars lower_chars) c of Some l \<Rightarrow> l | None \<Rightarrow> c)"

definition toLowerCase :: "string \<Rightarrow> string" where
  "toLowerCase s = map lower_char s"

text \<open>\<^verbatim>\<open>s.includes(t)\<close> on strings: \<open>t\<close> occurs in \<open>s\<close> at some position.\<close>

fun str_includes :: "string \<Rightarrow> string \<Rightarrow> bool" where
  "str_includes [] t = (t = [])"
| "str_includes (c # cs) t = (prefix t (c # cs) \<or> str_includes cs t)"

text \<open>
  \<^verbatim>\<open>obj[key]\<close> on an object literal. A literal inherits from
  \<^verbatim>\<open>Object.prototype\<close>, so a key the literal does not own is still found when
  it names one of the prototype's properties (a function, or the prototype object for
  \<^verbatim>\<open>__proto__\<close>: all truthy); any other key gives \<^verbatim>\<open>undefined\<close>.
\<close>

definition object_prototype_keys :: "string list" where
  "object_prototype_keys =
     [''constructor'', ''__defineGetter__'', ''__defineSetter__'', ''hasOwnProperty'',
      ''__lookupGetter__'', ''__lookupSetter__'', ''isPrototypeOf'',
      ''propertyIsEnumerable'', ''toString'', ''valueOf'', ''__proto__'',
      ''toLocaleString'']"

datatype 'a property = Own 'a | Inherited string | Absent

definition get_prop :: "(string \<times> 'a) list \<Rightarrow> string \<Rightarrow> 'a property" where
  "get_prop obj k = (case map_of obj k of
      Some v \<Rightarrow> Own v
    | None \<Rightarrow> if k \<in> set object_prototype_keys then Inherited k else Absent)"

text \<open>\<^verbatim>\<open>xs.map(f)\<close> and \<^verbatim>\<open>xs.filter(p)\<close> with a callback that can throw.\<close>

fun mapE :: "('a \<Rightarrow> js_error + 'b) \<Rightarrow> 'a list \<Rightarrow> js_error + 'b list" where
  "mapE f [] = Inr []"
| "mapE f (x # xs) = (case f x of
      Inl e \<Rightarrow> Inl e
    | Inr y \<Rightarrow> (case mapE f xs of Inl e \<Rightarrow> Inl e | Inr ys \<Rightarrow> Inr (y # ys)))"

fun filterE :: "('a \<Rightarrow> js_error + bool) \<Rightarrow> 'a list \<Rightarrow> js_error + 'a list" where
  "filterE p [] = Inr []"
| "filterE p (x # xs) = (case p x of
      Inl e \<Rightarrow> Inl e
    | Inr b \<Rightarrow> (case filterE p xs of
        Inl e \<Rightarrow> Inl e
      | Inr ys \<Rightarrow> Inr (if b then x # ys else ys)))"

text \<open>
  \<^verbatim>\<open>xs.sort(cmp)\<close>: the language's sort is stable (ECMAScript 2019) and orders by
  the comparator.
  Modelled as insertion from the right: an element goes before the first one it does
  not compare greater than, so equal elements keep their order.
\<close>

fun insert_by :: "('a \<Rightarrow> 'a \<Rightarrow> int) \<Rightarrow> 'a \<Rightarrow> 'a list \<Rightarrow> 'a list" where
  "insert_by cmp x [] = [x]"
| "insert_by cmp x (y # ys) = (if cmp x y \<le> 0 then x # y # ys else y # insert_by cmp x ys)"

definition js_sort :: "('a \<Rightarrow> 'a \<Rightarrow> int) \<Rightarrow> 'a list \<Rightarrow> 'a list" where
  "js_sort cmp xs = foldr (insert_by cmp) xs []"

section \<open>Task discovery: filter, score, rank (discover-tasks skill)\<close>

text \<open>
  A label is a string or an object with a \<^verbatim>\<open>name\<close> (\<open>LObj n\<close>; an empty
  \<open>n\<close> stands for a missing or empty name). \<^verbatim>\<open>createdAt\<close> is absent, a
  timestamp \<^verbatim>\<open>new Date\<close> cannot parse (its difference with \<^verbatim>\<open>Date.now()\<close>
  is NaN), or a time in milliseconds.
\<close>

datatype label = LStr string | LObj string

datatype created = NoDate | BadDate | At int

text \<open>A task; \<open>ident\<close> is its \<^verbatim>\<open>id\<close>.\<close>

record task =
  number :: jsval
  ident :: jsval
  labels :: "label list option"
  createdAt :: created

record scored_task = task +
  score :: int

text \<open>\<^verbatim>\<open>String(t.number || t.id)\<close>\<close>

definition task_key :: "'a task_scheme \<Rightarrow> string" where
  "task_key t = js_String (js_or (number t) (ident t))"

text \<open>
  \<^verbatim>\<open>(l.name || l).toLowerCase()\<close>: a string has no \<^verbatim>\<open>name\<close>; an object
  with a falsy name is itself the operand and has no \<^verbatim>\<open>toLowerCase\<close>.
\<close>

definition label_text :: "label \<Rightarrow> js_error + string" where
  "label_text l = (case l of
      LStr s \<Rightarrow> Inr (toLowerCase s)
    | LObj n \<Rightarrow> if n \<noteq> [] then Inr (toLowerCase n) else Inl TypeError)"

text \<open>\<^verbatim>\<open>(t.labels || []).map(l => (l.name || l).toLowerCase())\<close>\<close>

definition lowered_labels :: "'a task_scheme \<Rightarrow> js_error + string list" where
  "lowered_labels t = mapE label_text (case labels t of None \<Rightarrow> [] | Some ls \<Rightarrow> ls)"

definition available :: "task list \<Rightarrow> string set \<Rightarrow> task list" where
  "available tasks claimedIds = filter (\<lambda>t. task_key t \<notin> claimedIds) tasks"

definition filtered :: "task list \<Rightarrow> string set \<Rightarrow> task list" where
  "filtered avail prLinkedIssues = filter (\<lambda>t. task_key t \<notin> prLinkedIssues) avail"

definition LABEL_MAPS :: "(string \<times> string list) list" where
  "LABEL_MAPS =
     [(''bugs'', [''bug'', ''fix'', ''error'', ''defect'']),
      (''security'', [''security'', ''vulnerability'', ''cve'']),
      (''features'', [''enhancement'', ''feature'', ''improvement''])]"

text \<open>
  \<^verbatim>\<open>LABEL_MAPS[filter] || []\<close> is an array for an own key and for an unknown one;
  for an inherited key it is a prototype member without \<^verbatim>\<open>some\<close>, and the
  callback throws on the first task.
\<close>

definition filterByPriority :: "task list \<Rightarrow> string \<Rightarrow> js_error + task list" where
  "filterByPriority tasks flt =
     (if flt = ''continue'' \<or> flt = ''all'' then Inr tasks
      else filterE (\<lambda>t. case lowered_labels t of
               Inl e \<Rightarrow> Inl e
             | Inr ls \<Rightarrow> (case get_prop LABEL_MAPS flt of
                   Own targetLabels \<Rightarrow>
                     Inr (list_ex (\<lambda>target. list_ex (\<lambda>l. str_includes l target) ls) targetLabels)
                 | Absent \<Rightarrow> Inr False
                 | Inherited k \<Rightarrow> Inl TypeError)) tasks)"

text \<open>
  \<^verbatim>\<open>scoreTask\<close>. \<open>now\<close> is \<^verbatim>\<open>Date.now()\<close>. The age test
  \<^verbatim>\<open>(Date.now() - new Date(createdAt)) / 86400000 > 30\<close> is over whole milliseconds,
  where it says that the difference exceeds \<open>30 * 86400000\<close>.
\<close>

definition scoreTask :: "int \<Rightarrow> 'a task_scheme \<Rightarrow> js_error + int" where
  "scoreTask now t = (case lowered_labels t of
      Inl e \<Rightarrow> Inl e
    | Inr ls \<Rightarrow>
        (let score = 0;
             score = (if list_ex (\<lambda>l. str_includes l ''critical'' \<or> str_includes l ''p0'') ls
                      then score + 100 else score);
             score = (if list_ex (\<lambda>l. str_includes l ''high'' \<or> str_includes l ''p1'') ls
                      then score + 50 else score);
             score = (if list_ex (\<lambda>l. str_includes l ''security'') ls
                      then score + 40 else score);
             score = (if list_ex (\<lambda>l. str_includes l ''small'' \<or> str_includes l ''quick'') ls
                      then score + 20 else score);
             score = (case createdAt t of
                        NoDate \<Rightarrow> score
                      | BadDate \<Rightarrow> score
                      | At c \<Rightarrow> if ''bug'' \<in> set ls \<and> now - c > 30 * 86400000
                                then score + 10 else score)
         in Inr score))"

text \<open>\<^verbatim>\<open>{ ...t, score: s }\<close>\<close>

definition scored :: "task \<Rightarrow> int \<Rightarrow> scored_task" where
  "scored t s = \<lparr>number = number t, ident = ident t, labels = labels t,
                 createdAt = createdAt t, score = s\<rparr>"

text \<open>\<^verbatim>\<open>t => ({ ...t, score: scoreTask(t) })\<close>\<close>

definition with_score :: "int \<Rightarrow> task \<Rightarrow> js_error + scored_task" where
  "with_score now t = (case scoreTask now t of
      Inl e \<Rightarrow> Inl e
    | Inr s \<Rightarrow> Inr (scored t s))"

text \<open>\<^verbatim>\<open>prioritized.map(...).sort((a, b) => b.score - a.score)\<close>\<close>

definition topTasks :: "int \<Rightarrow> task list \<Rightarrow> js_error + scored_task list" where
  "topTasks now prioritized = (case mapE (with_score now) prioritized of
      Inl e \<Rightarrow> Inl e
    | Inr ts \<Rightarrow> Inr (js_sort (\<lambda>a b. score b - score a) ts))"

text \<open>
  The pipeline of Phase 3 and the \<^verbatim>\<open>slice(0, 5)\<close> of Phase 4: claimed ids out,
  PR-linked ids out, the priority filter, scores, the sort, the first five.
\<close>

definition rank :: "int \<Rightarrow> task list \<Rightarrow> string set \<Rightarrow> string set \<Rightarrow> string
    \<Rightarrow> js_error + scored_task list" where
  "rank now tasks claimedIds prLinkedIssues flt =
     (case filterByPriority (filtered (available tasks claimedIds) prLinkedIssues) flt of
        Inl e \<Rightarrow> Inl e
      | Inr prioritized \<Rightarrow> (case topTasks now prioritized of
            Inl e \<Rightarrow> Inl e
          | Inr sorted_tasks \<Rightarrow> Inr (take 5 sorted_tasks)))"

section \<open>Open pull requests and the issues they link (discover-tasks, Phase 2.5)\<close>

text \<open>The character classes of the regular expressions: \<^verbatim>\<open>\d\<close>, \<^verbatim>\<open>\s\<close>, \<^verbatim>\<open>\w\<close>.\<close>

definition is_digit :: "char \<Rightarrow> bool" where
  "is_digit c = (c \<in> set ''0123456789'')"

definition is_space :: "char \<Rightarrow> bool" where
  "is_space c = (c \<in> set [CHR 0x09, CHR 0x0A, CHR 0x0B, CHR 0x0C, CHR 0x0D, CHR 0x20, CHR 0xA0])"

definition is_word :: "char \<Rightarrow> bool" where
  "is_word c = (c \<in> set ''abcdefghijklmnopqrstuvwxyzABCDEFGHIJKLMNOPQRSTUVWXYZ0123456789_'')"

text \<open>
  Matching under the \<^verbatim>\<open>i\<close> flag: an ASCII letter of the pattern matches itself
  and its other case, and no other code unit.
\<close>

definition ascii_lower :: "char \<Rightarrow> char" where
  "ascii_lower c = (case map_of (zip ''ABCDEFGHIJKLMNOPQRSTUVWXYZ'' ''abcdefghijklmnopqrstuvwxyz'') c of
      Some l \<Rightarrow> l | None \<Rightarrow> c)"

record pull_request =
  headRefName :: "string option"
  body :: "string option"
  title :: "string option"

text \<open>
  \<^verbatim>\<open>s.match(/-(\d+)$/)\<close>: the first position with a hyphen followed by digits up
  to the end of the string; the result is the captured digits.
\<close>

fun branchMatch :: "string \<Rightarrow> string option" where
  "branchMatch [] = None"
| "branchMatch (c # cs) =
     (if c = CHR ''-'' \<and> cs \<noteq> [] \<and> list_all is_digit cs then Some cs else branchMatch cs)"

text \<open>
  \<^verbatim>\<open>\s+#(\d+)\<close> at the head of a string: the capture and the number of code
  units matched. Both repetitions are greedy, and giving back a character never helps
  (what follows must be a \<^verbatim>\<open>#\<close>, or is the end of the pattern).
\<close>

definition closing_tail :: "string \<Rightarrow> (string \<times> nat) option" where
  "closing_tail r =
     (let ws = takeWhile is_space r in
      if ws = [] then None
      else case dropWhile is_space r of
          [] \<Rightarrow> None
        | h # r2 \<Rightarrow>
            (let d = takeWhile is_digit r2 in
             if h = CHR ''#'' \<and> d \<noteq> [] then Some (d, length ws + 1 + length d) else None))"

text \<open>
  The alternatives \<^verbatim>\<open>close[sd]?|fix(?:e[sd])?|resolve[sd]?\<close>, in the order
  in which backtracking tries them.
\<close>

definition closing_keywords :: "string list" where
  "closing_keywords =
     [''closes'', ''closed'', ''close'', ''fixes'', ''fixed'', ''fix'',
      ''resolves'', ''resolved'', ''resolve'']"

text \<open>One alternative followed by \<^verbatim>\<open>\s+#(\d+)\<close>, at the head of a string.\<close>

definition keyword_at :: "string \<Rightarrow> string \<Rightarrow> (string \<times> nat) option" where
  "keyword_at k s =
     (if length k \<le> length s \<and> map ascii_lower (take (length k) s) = k
      then (case closing_tail (drop (length k) s) of
              None \<Rightarrow> None
            | Some (d, n) \<Rightarrow> Some (d, length k + n))
      else None)"

fun first_success :: "('a \<Rightarrow> 'b option) \<Rightarrow> 'a list \<Rightarrow> 'b option" where
  "first_success f [] = None"
| "first_success f (x # xs) = (case f x of Some y \<Rightarrow> Some y | None \<Rightarrow> first_success f xs)"

text \<open>
  A match of
  \<^verbatim>\<open>/\b(?:close[sd]?|fix(?:e[sd])?|resolve[sd]?)\s+#(\d+)/i\<close> that starts at
  the head of \<open>s\<close>; \<open>prev_word\<close> says whether the code unit before it is a word
  character (the pattern starts with a letter, so \<^verbatim>\<open>\b\<close> holds when it is not).
\<close>

definition closing_at :: "bool \<Rightarrow> string \<Rightarrow> (string \<times> nat) option" where
  "closing_at prev_word s =
     (if prev_word then None else first_success (\<lambda>k. keyword_at k s) closing_keywords)"

text \<open>A match of \<^verbatim>\<open>/\(#(\d+)\)/\<close> that starts at the head of \<open>s\<close>.\<close>

definition title_at :: "bool \<Rightarrow> string \<Rightarrow> (string \<times> nat) option" where
  "title_at prev_word s = (case s of
      a # b # r \<Rightarrow>
        (let d = takeWhile is_digit r in
         if a = CHR ''('' \<and> b = CHR ''#'' \<and> d \<noteq> []
            \<and> (case dropWhile is_digit r of [] \<Rightarrow> False | e # r2 \<Rightarrow> e = CHR '')'')
         then Some (d, length d + 3) else None)
    | _ \<Rightarrow> None)"

text \<open>
  \<^verbatim>\<open>s.matchAll(re)\<close> with the \<^verbatim>\<open>g\<close> flag: the captures of the matches,
  left to right. After a match the search goes on behind it (\<open>skip\<close> counts the
  code units of the last match still to pass); elsewhere it moves on by one.
\<close>

fun matchAll :: "(bool \<Rightarrow> string \<Rightarrow> (string \<times> nat) option) \<Rightarrow> nat \<Rightarrow> bool \<Rightarrow> string
    \<Rightarrow> string list" where
  "matchAll m skip prev_word [] = []"
| "matchAll m skip prev_word (c # cs) =
     (if 0 < skip then matchAll m (skip - 1) (is_word c) cs
      else case m prev_word (c # cs) of
          Some (d, n) \<Rightarrow> d # matchAll m (n - 1) (is_word c) cs
        | None \<Rightarrow> matchAll m 0 (is_word c) cs)"

text \<open>
  The loop body for one pull request: what it adds to \<^verbatim>\<open>prLinkedIssues\<close>.
  A missing or empty field is falsy: \<^verbatim>\<open>(pr.headRefName || '')\<close>,
  \<^verbatim>\<open>if (pr.body)\<close>, \<^verbatim>\<open>(pr.title || '')\<close>.
\<close>

definition pr_links :: "pull_request \<Rightarrow> string set" where
  "pr_links pr =
     (case branchMatch (case headRefName pr of None \<Rightarrow> [] | Some b \<Rightarrow> b) of
        None \<Rightarrow> {} | Some d \<Rightarrow> {d})
     \<union> (case body pr of
          None \<Rightarrow> {}
        | Some b \<Rightarrow> if b = [] then {} else set (matchAll closing_at 0 False b))
     \<union> set (matchAll title_at 0 False (case title pr of None \<Rightarrow> [] | Some t \<Rightarrow> t))"

text \<open>
  What \<^verbatim>\<open>/tmp/gh-prs.json\<close> holds when the block runs: it cannot be read, it is
  empty (read as \<^verbatim>\<open>'[]'\<close>), it is not JSON or not an array of pull requests (the
  parse or the loop throws), or it is a list of pull requests.
\<close>

datatype pr_source = Unreadable | EmptyFile | Malformed | Parsed "pull_request list"

text \<open>The \<^verbatim>\<open>try\<close> block; the \<^verbatim>\<open>catch\<close> resets the set to the empty one.\<close>

definition collect_prLinkedIssues :: "pr_source \<Rightarrow> string set" where
  "collect_prLinkedIssues src = (case src of
      Unreadable \<Rightarrow> {}
    | Malformed \<Rightarrow> {}
    | EmptyFile \<Rightarrow> fold (\<lambda>pr acc. acc \<union> pr_links pr) [] {}
    | Parsed prs \<Rightarrow> fold (\<lambda>pr acc. acc \<union> pr_links pr) prs {})"

section \<open>Policy parsing (lib/sources/policy-questions.js)\<close>

text \<open>
  The result of \<^verbatim>\<open>map[key] || fallback\<close>: a value of the expected kind, or the
  member of \<^verbatim>\<open>Object.prototype\<close> that an inherited key names.
\<close>

datatype 'a js = Val 'a | Member string

text \<open>\<^verbatim>\<open>map[key] || fallback\<close> for a literal whose values are strings.\<close>

definition lookup_or :: "(string \<times> string) list \<Rightarrow> string \<Rightarrow> string \<Rightarrow> string js" where
  "lookup_or obj k fallback = (case get_prop obj k of
      Own v \<Rightarrow> if v \<noteq> [] then Val v else Val fallback
    | Inherited m \<Rightarrow> Member m
    | Absent \<Rightarrow> Val fallback)"

definition mapPriority :: "string \<Rightarrow> string js" where
  "mapPriority selection =
     lookup_or [(''All'', ''all''), (''Bugs'', ''bugs''), (''Security'', ''security''),
                (''Features'', ''features'')] selection ''all''"

definition mapStopPoint :: "string \<Rightarrow> string js" where
  "mapStopPoint selection =
     lookup_or [(''Merged'', ''merged''), (''PR Created'', ''pr-created''),
                (''Implemented'', ''implemented''), (''Deployed'', ''deployed''),
                (''Production'', ''production'')] selection ''merged''"

text \<open>
  A task source object: \<^verbatim>\<open>source\<close>, and the properties some sources carry
  (\<open>extra\<close> holds what a custom configuration adds).
\<close>

record task_source =
  source :: string
  description :: "string option"
  projectNumber :: "nat option"
  owner :: "string option"
  extra :: "(string \<times> string) list"

definition source_only :: "string \<Rightarrow> task_source" where
  "source_only s = \<lparr>source = s, description = None, projectNumber = None, owner = None, extra = []\<rparr>"

text \<open>
  \<^verbatim>\<open>customDetails\<close> (\<^verbatim>\<open>type\<close>, \<^verbatim>\<open>name\<close>, \<^verbatim>\<open>description\<close>). Record
  fields share one name space, so the fields of the answers carry a prefix.
\<close>

record custom_details =
  custom_type :: string
  custom_name :: string
  custom_description :: "string option"

text \<open>
  \<^verbatim>\<open>./custom-handler\<close> is not among the sources; its two functions are
  parameters of the model.
\<close>

record custom_handler =
  mapTypeSelection :: "string \<Rightarrow> string"
  buildCustomConfig :: "string \<Rightarrow> string \<Rightarrow> task_source js option"

definition sourceMap :: "(string \<times> task_source option) list" where
  "sourceMap =
     [(''GitHub Issues'', Some (source_only ''github'')),
      (''GitHub Projects'', Some (source_only ''gh-projects'')),
      (''GitLab Issues'', Some (source_only ''gitlab'')),
      (''Local tasks.md'', Some (source_only ''local'')),
      (''Custom'', None),
      (''Other'', None)]"

text \<open>
  Modelled from the spec: the preference cache (\<^verbatim>\<open>./source-cache\<close>, which is not
  among the sources) is a durable store of the last-used source configuration.
  \<^verbatim>\<open>getPreference()\<close> returns the stored value, or \<^verbatim>\<open>null\<close> (\<open>None\<close>) when
  nothing is stored, and changes nothing; \<^verbatim>\<open>savePreference(v)\<close> replaces the stored
  value. The functions below take the cache and, where they can save, return it.
\<close>

type_synonym preference_cache = "task_source js option"

text \<open>\<^verbatim>\<open>mapSource\<close>; \<open>cache\<close> is read by \<^verbatim>\<open>sourceCache.getPreference()\<close>.\<close>

definition mapSource :: "custom_handler \<Rightarrow> preference_cache \<Rightarrow> string
    \<Rightarrow> custom_details option \<Rightarrow> task_source js option" where
  "mapSource h cache selection customDetails =
     (if str_includes selection ''(last used)'' then cache
      else if selection = ''Custom'' \<and> customDetails \<noteq> None then
        (case customDetails of
           Some cd \<Rightarrow> buildCustomConfig h (mapTypeSelection h (custom_type cd)) (custom_name cd)
         | None \<Rightarrow> None)
      else if selection = ''Other'' then
        Some (Val ((source_only ''other'')
          \<lparr>description := Some (case customDetails of
               None \<Rightarrow> []
             | Some cd \<Rightarrow> (case custom_description cd of None \<Rightarrow> [] | Some t \<Rightarrow> t))\<rparr>))
      else (case get_prop sourceMap selection of
          Own (Some v) \<Rightarrow> Some (Val v)
        | Own None \<Rightarrow> Some (Val (source_only ''github''))
        | Inherited m \<Rightarrow> Some (Member m)
        | Absent \<Rightarrow> Some (Val (source_only ''github''))))"

text \<open>
  \<^verbatim>\<open>responses.project\<close> (\<^verbatim>\<open>number\<close>, \<^verbatim>\<open>owner\<close>), \<^verbatim>\<open>responses\<close>
  (\<^verbatim>\<open>source\<close>, \<^verbatim>\<open>priority\<close>, \<^verbatim>\<open>stopPoint\<close>, \<^verbatim>\<open>custom\<close>,
  \<^verbatim>\<open>project\<close>) and the policy object that is returned.
\<close>

record project_response =
  project_number :: jsval
  project_owner :: "string option"

record responses =
  resp_source :: string
  resp_priority :: string
  resp_stopPoint :: string
  resp_custom :: "custom_details option"
  resp_project :: "project_response option"

record policy =
  taskSource :: "task_source js"
  priorityFilter :: "string js"
  stoppingPoint :: "string js"

text \<open>\<^verbatim>\<open>s.trim()\<close>\<close>

definition trim :: "string \<Rightarrow> string" where
  "trim s = rev (dropWhile is_space (rev (dropWhile is_space s)))"

text \<open>\<^verbatim>\<open>s.replace(/[^\x20-\x7E]/g, '?').substring(0, n)\<close>\<close>

definition printable :: "nat \<Rightarrow> string \<Rightarrow> string" where
  "printable n s =
     take n (map (\<lambda>c. if 32 \<le> (of_char c :: nat) \<and> (of_char c :: nat) \<le> 126 then c else CHR ''?'') s)"

text \<open>\<^verbatim>\<open>/^[1-9][0-9]*$/.test(s)\<close>\<close>

definition positive_integer :: "string \<Rightarrow> bool" where
  "positive_integer s = (case s of
      [] \<Rightarrow> False
    | c # cs \<Rightarrow> c \<in> set ''123456789'' \<and> list_all is_digit cs)"

text \<open>\<^verbatim>\<open>/^(@me|[a-zA-Z0-9][a-zA-Z0-9_-]*)$/.test(s)\<close>\<close>

definition valid_owner :: "string \<Rightarrow> bool" where
  "valid_owner s = (s = ''@me'' \<or> (case s of
      [] \<Rightarrow> False
    | c # cs \<Rightarrow> is_word c \<and> c \<noteq> CHR ''_''
        \<and> list_all (\<lambda>x. is_word x \<or> x = CHR ''-'') cs))"

text \<open>\<^verbatim>\<open>Number(s)\<close> on a string of decimal digits (exact below \<open>2^53\<close>).\<close>

definition digit_value :: "char \<Rightarrow> nat" where
  "digit_value c = (of_char c :: nat) - 48"

definition Number :: "string \<Rightarrow> nat" where
  "Number s = foldl (\<lambda>a c. 10 * a + digit_value c) 0 s"

text \<open>\<^verbatim>\<open>policy.taskSource.source === s\<close>; a prototype member has no such property.\<close>

definition source_is :: "task_source js \<Rightarrow> string \<Rightarrow> bool" where
  "source_is ts s = (case ts of Val v \<Rightarrow> source v = s | Member m \<Rightarrow> False)"

text \<open>\<^verbatim>\<open>policy.taskSource.projectNumber && policy.taskSource.owner\<close>, as a truth value.\<close>

definition has_project :: "task_source js \<Rightarrow> bool" where
  "has_project ts = (case ts of
      Val v \<Rightarrow> (case projectNumber v of None \<Rightarrow> False | Some n \<Rightarrow> n \<noteq> 0)
             \<and> (case owner v of None \<Rightarrow> False | Some w \<Rightarrow> w \<noteq> [])
    | Member m \<Rightarrow> False)"

text \<open>The block that merges the follow-up answers of a GitHub Projects source.\<close>

definition merge_project :: "task_source js \<Rightarrow> project_response option \<Rightarrow> js_error + task_source js" where
  "merge_project ts project =
     (if source_is ts ''gh-projects'' then
        (case project of
           Some p \<Rightarrow>
             (let rawNum = trim (js_String (project_number p)) in
              if \<not> positive_integer rawNum then
                Inl (Error (''Invalid project number: '' @ [CHR 0x22]
                   @ printable 32 (js_String (project_number p))
                   @ [CHR 0x22] @ ''. Must be a positive integer.''))
              else
                (let num = Number rawNum;
                     own = trim (case project_owner p of None \<Rightarrow> [] | Some w \<Rightarrow> w);
                     safeOwner = printable 64 (case project_owner p of None \<Rightarrow> [] | Some w \<Rightarrow> w)
                 in if own = [] \<or> \<not> valid_owner own then
                      Inl (Error (''Invalid project owner: '' @ [CHR 0x22] @ safeOwner
                         @ [CHR 0x22] @ '' (use @me or an org/user name)''))
                    else (case ts of
                        Val v \<Rightarrow> Inr (Val (v\<lparr>projectNumber := Some num, owner := Some own\<rparr>))
                      | Member m \<Rightarrow> Inr ts)))
         | None \<Rightarrow>
             if \<not> has_project ts then
               Inl (Error (''GitHub Projects source requires project number and owner. ''
                  @ ''Call getProjectQuestions() first.''))
             else Inr ts)
      else Inr ts)"

text \<open>
  \<^verbatim>\<open>parseAndCachePolicy\<close>, with the preference cache passed in and returned:
  a \<^verbatim>\<open>throw\<close> leaves the cache as it was, \<^verbatim>\<open>savePreference\<close> stores the
  task source.
\<close>

definition parseAndCachePolicy :: "custom_handler \<Rightarrow> preference_cache \<Rightarrow> responses
    \<Rightarrow> (js_error + policy) \<times> preference_cache" where
  "parseAndCachePolicy h cache r =
     (let ts0 = mapSource h cache (resp_source r) (resp_custom r);
          pf = mapPriority (resp_priority r);
          sp = mapStopPoint (resp_stopPoint r)
      in case ts0 of
           None \<Rightarrow>
             (Inl (Error ''Cached source preference not found. Please select a source.''), cache)
         | Some ts1 \<Rightarrow>
             (case merge_project ts1 (resp_project r) of
                Inl e \<Rightarrow> (Inl e, cache)
              | Inr ts \<Rightarrow>
                  (Inr \<lparr>taskSource = ts, priorityFilter = pf, stoppingPoint = sp\<rparr>,
                   if source_is ts ''gh-projects'' then (if has_project ts then Some ts else cache)
                   else if \<not> source_is ts ''other'' then Some ts
                   else cache)))"

section \<open>Resume (the /next-task command)\<close>

text \<open>
  An entry of the registry \<^verbatim>\<open>.claude/tasks.json\<close>; its id is a string
  (\<^verbatim>\<open>String(selectedTask.number)\<close> in the task state).
\<close>

record claim =
  claim_id :: string
  branch :: string
  worktreePath :: string

text \<open>\<^verbatim>\<open>new Set(claimedTasks.map(t => t.id))\<close>\<close>

definition claimedIds_of :: "claim list \<Rightarrow> string set" where
  "claimedIds_of claimedTasks = set (map claim_id claimedTasks)"

text \<open>
  A JSON document on disk: not there, there but not parseable (\<^verbatim>\<open>JSON.parse\<close>
  throws a SyntaxError), or parsed.
\<close>

datatype 'a json_file = Missing | Unparsable | Content 'a

text \<open>
  An entry of \<^verbatim>\<open>status.steps\<close> (the time stamps and the result are not read by the
  resume) and the status document \<^verbatim>\<open>workflow-status.json\<close>.
\<close>

record step_entry =
  step :: string
  status :: string

record workflow_status =
  steps :: "step_entry list"

text \<open>What the resume code reads and changes: the files and the working directory.\<close>

record world =
  registry_file :: "claim list json_file"
  status_file :: "string \<Rightarrow> workflow_status json_file"
  path_exists :: "string \<Rightarrow> bool"
  cwd :: string

text \<open>What the resolution returns: \<^verbatim>\<open>{ path, task }\<close>.\<close>

record worktree =
  wt_path :: string
  wt_task :: "claim option"

text \<open>
  The argument of \<^verbatim>\<open>--resume\<close> is \<^verbatim>\<open>undefined\<close> (\<open>None\<close>) or a string.
  \<^verbatim>\<open>!arg\<close>, and \<^verbatim>\<open>String.prototype.endsWith(arg)\<close>, which converts its
  argument to a string: \<^verbatim>\<open>undefined\<close> becomes the text \<^verbatim>\<open>undefined\<close>.
\<close>

definition arg_falsy :: "string option \<Rightarrow> bool" where
  "arg_falsy arg = (case arg of None \<Rightarrow> True | Some a \<Rightarrow> a = [])"

definition arg_text :: "string option \<Rightarrow> string" where
  "arg_text arg = (case arg of None \<Rightarrow> ''undefined'' | Some a \<Rightarrow> a)"

definition by_id :: "string option \<Rightarrow> claim \<Rightarrow> bool" where
  "by_id arg t = (Some (claim_id t) = arg)"

definition by_branch :: "string option \<Rightarrow> claim \<Rightarrow> bool" where
  "by_branch arg t = (Some (branch t) = arg \<or> suffix (arg_text arg) (branch t))"

definition findWorktreeToResume :: "world \<Rightarrow> string option \<Rightarrow> js_error + worktree option" where
  "findWorktreeToResume w arg = (case registry_file w of
      Missing \<Rightarrow> Inr None
    | Unparsable \<Rightarrow> Inl SyntaxError
    | Content tasks \<Rightarrow>
        if arg_falsy arg \<and> length tasks = 1 then
          Inr (Some \<lparr>wt_path = worktreePath (tasks ! 0), wt_task = Some (tasks ! 0)\<rparr>)
        else (case find (by_id arg) tasks of
            Some byId \<Rightarrow> Inr (Some \<lparr>wt_path = worktreePath byId, wt_task = Some byId\<rparr>)
          | None \<Rightarrow> (case find (by_branch arg) tasks of
              Some byBranch \<Rightarrow>
                Inr (Some \<lparr>wt_path = worktreePath byBranch, wt_task = Some byBranch\<rparr>)
            | None \<Rightarrow>
                (case arg of
                   Some a \<Rightarrow> if a \<noteq> [] \<and> path_exists w a
                             then Inr (Some \<lparr>wt_path = a, wt_task = None\<rparr>) else Inr None
                 | None \<Rightarrow> Inr None))))"

definition stepToPhase :: "(string \<times> string) list" where
  "stepToPhase =
     [(''worktree-created'', ''exploration''),
      (''exploration-completed'', ''planning''),
      (''plan-approved'', ''implementation''),
      (''implementation-completed'', ''pre-review-gates''),
      (''deslop-work-completed'', ''review-loop''),
      (''review-approved'', ''delivery-validation''),
      (''delivery-validation-passed'', ''docs-update''),
      (''docs-updated'', ''ship''),
      (''ready-to-ship'', ''ship'')]"

definition mapStepToPhase :: "string \<Rightarrow> string js" where
  "mapStepToPhase s = lookup_or stepToPhase s ''exploration''"

text \<open>
  \<^verbatim>\<open>args[args.indexOf('--resume') + 1]\<close>, for \<open>args\<close> that include
  \<^verbatim>\<open>--resume\<close>.
\<close>

fun resumeArg :: "string list \<Rightarrow> string option" where
  "resumeArg [] = None"
| "resumeArg (a # as) =
     (if a = ''--resume'' then (case as of [] \<Rightarrow> None | b # bs \<Rightarrow> Some b) else resumeArg as)"

text \<open>
  How the \<^verbatim>\<open>--resume\<close> branch ends: it prints that no worktree was found, or that
  the worktree has no \<^verbatim>\<open>workflow-status.json\<close>, and returns; or it goes on from a
  phase in a worktree.
\<close>

datatype resume_outcome =
  NoWorktreeFound
| NoStatusFile string
| Resuming string "string js"

text \<open>
  The \<^verbatim>\<open>--resume\<close> branch, reached when the arguments include
  \<^verbatim>\<open>--resume\<close> and neither \<^verbatim>\<open>--status\<close> nor \<^verbatim>\<open>--abort\<close>, which
  are handled first. The status document is taken to have the fields the message prints
  (task, git, workflow). Reading \<^verbatim>\<open>lastStep.step\<close> of an empty step list is a
  TypeError. The only change to the world is \<^verbatim>\<open>process.chdir\<close>.
\<close>

definition resume :: "world \<Rightarrow> string list \<Rightarrow> (js_error + resume_outcome) \<times> world" where
  "resume w args = (case findWorktreeToResume w (resumeArg args) of
      Inl e \<Rightarrow> (Inl e, w)
    | Inr None \<Rightarrow> (Inr NoWorktreeFound, w)
    | Inr (Some wt) \<Rightarrow> (case status_file w (wt_path wt) of
          Missing \<Rightarrow> (Inr (NoStatusFile (wt_path wt)), w)
        | Unparsable \<Rightarrow> (Inl SyntaxError, w)
        | Content st \<Rightarrow>
            if steps st = [] then (Inl TypeError, w)
            else (Inr (Resuming (wt_path wt) (mapStepToPhase (step (last (steps st))))),
                  w\<lparr>cwd := wt_path wt\<rparr>)))"



section \<open>Vocabulary of the properties\<close>

text \<open>
  The labels of a task, whether they are well formed (no label object with a missing or
  empty name, on which \<^verbatim>\<open>toLowerCase\<close> would not exist), and their lower-case texts.
\<close>

definition label_list :: "'a task_scheme \<Rightarrow> label list" where
  "label_list t = (case labels t of None \<Rightarrow> [] | Some ls \<Rightarrow> ls)"

definition well_formed_labels :: "'a task_scheme \<Rightarrow> bool" where
  "well_formed_labels t = (LObj [] \<notin> set (label_list t))"

definition label_texts :: "'a task_scheme \<Rightarrow> string list" where
  "label_texts t = map (\<lambda>l. toLowerCase (case l of LStr s \<Rightarrow> s | LObj n \<Rightarrow> n)) (label_list t)"

text \<open>The score of a task as a number (0 where \<^verbatim>\<open>scoreTask\<close> throws).\<close>

definition score_of :: "int \<Rightarrow> 'a task_scheme \<Rightarrow> int" where
  "score_of now t = (case scoreTask now t of Inr s \<Rightarrow> s | Inl e \<Rightarrow> 0)"

text \<open>
  The ranking order on positions of the candidate list: a higher score first, and among
  equal scores the earlier position first. It is a strict total order on positions.
\<close>

definition ranks_before :: "int \<Rightarrow> task list \<Rightarrow> nat \<Rightarrow> nat \<Rightarrow> bool" where
  "ranks_before now tasks i j =
     (score_of now (tasks ! i) > score_of now (tasks ! j)
      \<or> (score_of now (tasks ! i) = score_of now (tasks ! j) \<and> i < j))"

text \<open>
  Whether a word character stands before the rest of a string, given the part of the
  string before it.
\<close>

definition word_before :: "bool \<Rightarrow> string \<Rightarrow> bool" where
  "word_before prev_word pre = (if pre = [] then prev_word else is_word (last pre))"

text \<open>
  The three links between a pull request and an issue number \<open>d\<close> (a non-empty string
  of digits, the whole number): the branch name ends in a hyphen and \<open>d\<close>; the body has
  a closing keyword in either case that starts at a word boundary, then white space,
  \<^verbatim>\<open>#\<close> and the number \<open>d\<close>; the title has \<open>d\<close> between \<^verbatim>\<open>(#\<close> and
  \<^verbatim>\<open>)\<close>.
\<close>

definition closes_issue :: "string \<Rightarrow> string \<Rightarrow> bool" where
  "closes_issue b d =
     (\<exists>pre k ws rest. b = pre @ k @ ws @ ''#'' @ d @ rest
        \<and> (pre = [] \<or> \<not> is_word (last pre))
        \<and> map ascii_lower k \<in> set closing_keywords
        \<and> ws \<noteq> [] \<and> list_all is_space ws
        \<and> d \<noteq> [] \<and> list_all is_digit d
        \<and> (rest = [] \<or> \<not> is_digit (hd rest)))"

definition branch_ends_with_id :: "pull_request \<Rightarrow> string \<Rightarrow> bool" where
  "branch_ends_with_id pr d =
     (\<exists>b pre. headRefName pr = Some b \<and> b = pre @ ''-'' @ d \<and> d \<noteq> [] \<and> list_all is_digit d)"

definition body_closes_id :: "pull_request \<Rightarrow> string \<Rightarrow> bool" where
  "body_closes_id pr d = (\<exists>b. body pr = Some b \<and> closes_issue b d)"

definition title_mentions_id :: "pull_request \<Rightarrow> string \<Rightarrow> bool" where
  "title_mentions_id pr d =
     (\<exists>t pre rest. title pr = Some t \<and> t = pre @ ''(#'' @ d @ '')'' @ rest
        \<and> d \<noteq> [] \<and> list_all is_digit d)"

text \<open>The worktree of a registry entry: \<^verbatim>\<open>{ path: t.worktreePath, task: t }\<close>.\<close>

definition found :: "claim \<Rightarrow> worktree" where
  "found t = \<lparr>wt_path = worktreePath t, wt_task = Some t\<rparr>"

section \<open>Example inputs\<close>

text \<open>
  The two candidates of the ranking scenario: a bug created 40 days before \<open>now\<close>,
  and a critical task; and two tasks without labels.
\<close>

definition ex_bug :: "int \<Rightarrow> task" where
  "ex_bug now = \<lparr>number = JUndefined, ident = JNum 1, labels = Some [LStr ''bug''],
                  createdAt = At (now - 40 * 86400000)\<rparr>"

definition ex_critical :: task where
  "ex_critical = \<lparr>number = JUndefined, ident = JNum 2, labels = Some [LStr ''critical''],
                   createdAt = NoDate\<rparr>"

definition ex_plain :: "int \<Rightarrow> task" where
  "ex_plain n = \<lparr>number = JNum n, ident = JUndefined, labels = None, createdAt = NoDate\<rparr>"

definition ex_labelled :: task where
  "ex_labelled = \<lparr>number = JNum 7, ident = JUndefined,
                   labels = Some [LObj ''P0-Critical'', LStr ''Security'', LObj ''bug''],
                   createdAt = At 0\<rparr>"

definition ex_pr :: pull_request where
  "ex_pr = \<lparr>headRefName = Some ''fix-12'', body = Some ''Fixes #7'', title = Some ''x (#3)''\<rparr>"

definition ex_handler :: custom_handler where
  "ex_handler = \<lparr>mapTypeSelection = (\<lambda>t. t), buildCustomConfig = (\<lambda>t n. None)\<rparr>"

definition ex_responses :: responses where
  "ex_responses = \<lparr>resp_source = ''GitHub (last used)'', resp_priority = ''Bugs'',
                    resp_stopPoint = ''Merged'', resp_custom = None, resp_project = None\<rparr>"

definition ex_claim_a :: claim where
  "ex_claim_a = \<lparr>claim_id = ''12'', branch = ''fix/handle-undefined'', worktreePath = ''../wt/a''\<rparr>"

definition ex_claim_b :: claim where
  "ex_claim_b = \<lparr>claim_id = ''13'', branch = ''feature/b-13'', worktreePath = ''../wt/b''\<rparr>"

text \<open>
  A checkpoint log whose completed steps are out of order (the documentation was
  updated before the worktree was created), and a world with two claims in the registry
  and that log in the first claim's worktree.
\<close>

definition ex_log :: workflow_status where
  "ex_log = \<lparr>steps = [\<lparr>step = ''docs-updated'', status = ''completed''\<rparr>,
                       \<lparr>step = ''worktree-created'', status = ''completed''\<rparr>]\<rparr>"

definition ex_world :: world where
  "ex_world = \<lparr>registry_file = Content [ex_claim_a, ex_claim_b],
                status_file = (\<lambda>p. if p = ''../wt/a'' then Content ex_log else Missing),
                path_exists = (\<lambda>p. p = ''../wt/c''),
                cwd = ''/repo''\<rparr>"

text \<open>The same world without the registry file; the path \<^verbatim>\<open>../wt/c\<close> still exists.\<close>

definition ex_world_no_registry :: world where
  "ex_world_no_registry = ex_world\<lparr>registry_file := Missing\<rparr>"

section \<open>Facts about the helpers of the pipeline\<close>

lemma str_includes_iff: "str_includes s t \<longleftrightarrow> sublist t s"
  by (induction s) (auto simp: sublist_Cons_right)

lemma mapE_label_text:
  "mapE label_text ls = (if LObj [] \<in> set ls then Inl TypeError
     else Inr (map (\<lambda>l. toLowerCase (case l of LStr s \<Rightarrow> s | LObj n \<Rightarrow> n)) ls))"
  by (induction ls) (auto simp: label_text_def split: label.splits)

lemma lowered_labels_eq:
  "lowered_labels t = (if well_formed_labels t then Inr (label_texts t) else Inl TypeError)"
  by (simp add: lowered_labels_def well_formed_labels_def label_texts_def label_list_def mapE_label_text)

lemma list_ex_includes: "list_ex (\<lambda>l. str_includes l a \<or> str_includes l b) ls \<longleftrightarrow> (\<exists>l\<in>set ls. sublist a l \<or> sublist b l)"
  by (simp add: list_ex_iff str_includes_iff)

lemma list_ex_includes1: "list_ex (\<lambda>l. str_includes l a) ls \<longleftrightarrow> (\<exists>l\<in>set ls. sublist a l)"
  by (simp add: list_ex_iff str_includes_iff)

lemma if_add: "(if b then s + k else s) = s + (if b then k else (0::int))"
  by simp

lemma created_case_add:
  "(case cr of NoDate \<Rightarrow> s | BadDate \<Rightarrow> s | At c \<Rightarrow> if P c then s + k else s)
     = s + (if \<exists>c. cr = At c \<and> P c then k else (0::int))"
  by (cases cr) simp_all

lemma scoreTask_eq:
  "scoreTask now t =
     (if well_formed_labels t then
        Inr ((if \<exists>l\<in>set (label_texts t). sublist ''critical'' l \<or> sublist ''p0'' l then 100 else 0)
           + (if \<exists>l\<in>set (label_texts t). sublist ''high'' l \<or> sublist ''p1'' l then 50 else 0)
           + (if \<exists>l\<in>set (label_texts t). sublist ''security'' l then 40 else 0)
           + (if \<exists>l\<in>set (label_texts t). sublist ''small'' l \<or> sublist ''quick'' l then 20 else 0)
           + (if ''bug'' \<in> set (label_texts t)
                 \<and> (\<exists>c. createdAt t = At c \<and> now - c > 30 * 86400000) then 10 else 0))
      else Inl TypeError)"
proof (cases "well_formed_labels t")
  case False
  then show ?thesis by (simp add: scoreTask_def lowered_labels_eq)
next
  case True
  have "scoreTask now t = Inr (0
           + (if \<exists>l\<in>set (label_texts t). sublist ''critical'' l \<or> sublist ''p0'' l then 100 else 0)
           + (if \<exists>l\<in>set (label_texts t). sublist ''high'' l \<or> sublist ''p1'' l then 50 else 0)
           + (if \<exists>l\<in>set (label_texts t). sublist ''security'' l then 40 else 0)
           + (if \<exists>l\<in>set (label_texts t). sublist ''small'' l \<or> sublist ''quick'' l then 20 else 0)
           + (if \<exists>c. createdAt t = At c \<and> (''bug'' \<in> set (label_texts t) \<and> now - c > 30 * 86400000)
              then 10 else 0))"
    unfolding scoreTask_def lowered_labels_eq Let_def if_add
      list_ex_includes list_ex_includes1
    using True by (cases "createdAt t") (simp_all split del: if_split)
  also have "(\<exists>c. createdAt t = At c \<and> (''bug'' \<in> set (label_texts t) \<and> now - c > 30 * 86400000))
     \<longleftrightarrow> (''bug'' \<in> set (label_texts t) \<and> (\<exists>c. createdAt t = At c \<and> now - c > 30 * 86400000))"
    by blast
  finally show ?thesis using True by simp
qed

lemma mapE_with_score:
  "mapE (with_score now) ts = Inr ss \<Longrightarrow>
     ss = map (\<lambda>t. scored t (score_of now t)) ts"
  by (induction ts arbitrary: ss) (auto simp: with_score_def score_of_def split: sum.splits)

lemma filterE_filter: "filterE p xs = Inr ys \<Longrightarrow> ys = filter (\<lambda>x. p x = Inr True) xs"
  by (induction xs arbitrary: ys) (auto split: sum.splits)

lemma filter_indices: "filter P xs = map (nth xs) (filter (\<lambda>i. P (xs ! i)) [0..<length xs])"
proof -
  have "filter P xs = filter P (map (nth xs) [0..<length xs])" by (simp add: map_nth)
  also have "\<dots> = map (nth xs) (filter (P \<circ> nth xs) [0..<length xs])" by (rule filter_map)
  finally show ?thesis by (simp add: comp_def)
qed

lemma set_insert_by: "set (insert_by cmp x ys) = insert x (set ys)"
  by (induction ys) auto

lemma set_js_sort: "set (js_sort cmp xs) = set xs"
  by (induction xs) (auto simp: js_sort_def set_insert_by)

lemma length_insert_by: "length (insert_by cmp x ys) = Suc (length ys)"
  by (induction ys) auto

lemma js_sort_Cons: "js_sort cmp (x # xs) = insert_by cmp x (js_sort cmp xs)"
  by (simp add: js_sort_def)

lemma insert_by_map:
  "insert_by cmp (f x) (map f ys) = map f (insert_by (\<lambda>a b. cmp (f a) (f b)) x ys)"
  by (induction ys) auto

lemma js_sort_map: "js_sort cmp (map f xs) = map f (js_sort (\<lambda>a b. cmp (f a) (f b)) xs)"
  by (induction xs) (simp_all add: js_sort_Cons insert_by_map, simp add: js_sort_def)

lemma insert_by_ranked:
  fixes sc :: "nat \<Rightarrow> int"
  assumes "sorted_wrt (\<lambda>i j. sc i > sc j \<or> (sc i = sc j \<and> i < j)) ys"
      and "\<forall>y\<in>set ys. i < y"
  shows "sorted_wrt (\<lambda>i j. sc i > sc j \<or> (sc i = sc j \<and> i < j)) (insert_by (\<lambda>a b. sc b - sc a) i ys)"
  using assms
proof (induction ys)
  case Nil
  then show ?case by simp
next
  case (Cons y ys)
  show ?case
  proof (cases "sc y - sc i \<le> 0")
    case True
    have "\<forall>z\<in>set (y # ys). sc i > sc z \<or> (sc i = sc z \<and> i < z)"
    proof
      fix z assume z: "z \<in> set (y # ys)"
      have "sc y \<ge> sc z" using Cons.prems(1) z by auto
      moreover have "i < z" using Cons.prems(2) z by blast
      ultimately show "sc i > sc z \<or> (sc i = sc z \<and> i < z)" using True by linarith
    qed
    with True Cons.prems(1) show ?thesis by simp
  next
    case False
    have ih: "sorted_wrt (\<lambda>i j. sc i > sc j \<or> (sc i = sc j \<and> i < j)) (insert_by (\<lambda>a b. sc b - sc a) i ys)"
      using Cons.IH Cons.prems by simp
    from False ih Cons.prems(1) show ?thesis by (auto simp: set_insert_by)
  qed
qed

lemma js_sort_ranked:
  fixes sc :: "nat \<Rightarrow> int"
  assumes "sorted_wrt (<) is"
  shows "sorted_wrt (\<lambda>i j. sc i > sc j \<or> (sc i = sc j \<and> i < j)) (js_sort (\<lambda>a b. sc b - sc a) is)"
  using assms
proof (induction "is")
  case Nil
  then show ?case by (simp add: js_sort_def)
next
  case (Cons i "is")
  then show ?case
    by (simp add: js_sort_Cons insert_by_ranked set_js_sort)
qed

lemma task_key_scored [simp]: "task_key (scored t s) = task_key t"
  by (simp add: task_key_def scored_def)

lemma score_scored [simp]: "score (scored t s) = s"
  by (simp add: scored_def)

lemma filterByPriority_filter:
  "filterByPriority ts flt = Inr ys \<Longrightarrow> \<exists>Q. ys = filter Q ts"
proof (cases "flt = ''continue'' \<or> flt = ''all''")
  case True
  assume "filterByPriority ts flt = Inr ys"
  with True have "ys = filter (\<lambda>t. True) ts" by (auto simp: filterByPriority_def)
  then show ?thesis by blast
next
  case False
  assume "filterByPriority ts flt = Inr ys"
  with False show ?thesis
    unfolding filterByPriority_def by (auto dest: filterE_filter)
qed

lemma rank_shape:
  assumes "rank now tasks claimedIds prLinkedIssues flt = Inr out"
  shows "\<exists>Q. out = take 5 (js_sort (\<lambda>a b. score b - score a)
            (map (\<lambda>t. scored t (score_of now t))
              (filter (\<lambda>t. task_key t \<notin> claimedIds \<and> task_key t \<notin> prLinkedIssues \<and> Q t) tasks)))"
proof -
  from assms obtain prioritized sorted_tasks where
    p: "filterByPriority (filtered (available tasks claimedIds) prLinkedIssues) flt = Inr prioritized"
    and s: "topTasks now prioritized = Inr sorted_tasks"
    and out: "out = take 5 sorted_tasks"
    by (auto simp: rank_def split: sum.splits)
  from p obtain Q where q: "prioritized = filter Q (filtered (available tasks claimedIds) prLinkedIssues)"
    using filterByPriority_filter by blast
  have pri: "prioritized = filter (\<lambda>t. task_key t \<notin> claimedIds \<and> task_key t \<notin> prLinkedIssues \<and> Q t) tasks"
    unfolding q filtered_def available_def by (simp add: conj_commute conj_left_commute)
  from s obtain ts where m: "mapE (with_score now) prioritized = Inr ts"
    and st: "sorted_tasks = js_sort (\<lambda>a b. score b - score a) ts"
    by (auto simp: topTasks_def split: sum.splits)
  from mapE_with_score [OF m] st out pri show ?thesis by blast
qed

lemma mapE_total: "(\<And>x. x \<in> set xs \<Longrightarrow> \<exists>y. f x = Inr y) \<Longrightarrow> \<exists>ys. mapE f xs = Inr ys"
proof (induction xs)
  case Nil
  then show ?case by simp
next
  case (Cons x xs)
  then obtain y ys where "f x = Inr y" "mapE f xs = Inr ys" by (meson list.set_intros)
  then show ?case by simp
qed

lemma filterE_total: "(\<And>x. x \<in> set xs \<Longrightarrow> \<exists>b. p x = Inr b) \<Longrightarrow> \<exists>ys. filterE p xs = Inr ys"
proof (induction xs)
  case Nil
  then show ?case by simp
next
  case (Cons x xs)
  then obtain b ys where "p x = Inr b" "filterE p xs = Inr ys" by (meson list.set_intros)
  then show ?case by simp
qed

lemma filterE_subset: "filterE p xs = Inr ys \<Longrightarrow> set ys \<subseteq> set xs"
  by (auto dest: filterE_filter)

lemma rank_total:
  assumes wf: "\<forall>t\<in>set tasks. well_formed_labels t"
      and flt: "flt \<notin> set object_prototype_keys"
  shows "\<exists>out. rank now tasks claimedIds prLinkedIssues flt = Inr out"
proof -
  let ?ts = "filtered (available tasks claimedIds) prLinkedIssues"
  have sub: "set ?ts \<subseteq> set tasks" by (auto simp: filtered_def available_def)
  have "\<exists>prioritized. filterByPriority ?ts flt = Inr prioritized"
  proof (cases "flt = ''continue'' \<or> flt = ''all''")
    case True
    then show ?thesis by (auto simp: filterByPriority_def)
  next
    case False
    have "\<exists>ys. filterE (\<lambda>t. case lowered_labels t of
               Inl e \<Rightarrow> Inl e
             | Inr ls \<Rightarrow> (case get_prop LABEL_MAPS flt of
                   Own targetLabels \<Rightarrow>
                     Inr (list_ex (\<lambda>target. list_ex (\<lambda>l. str_includes l target) ls) targetLabels)
                 | Absent \<Rightarrow> Inr False
                 | Inherited k \<Rightarrow> Inl TypeError)) ?ts = Inr ys"
    proof (rule filterE_total)
      fix x assume "x \<in> set ?ts"
      with sub wf have "well_formed_labels x" by blast
      then show "\<exists>b. (case lowered_labels x of
               Inl e \<Rightarrow> Inl e
             | Inr ls \<Rightarrow> (case get_prop LABEL_MAPS flt of
                   Own targetLabels \<Rightarrow>
                     Inr (list_ex (\<lambda>target. list_ex (\<lambda>l. str_includes l target) ls) targetLabels)
                 | Absent \<Rightarrow> Inr False
                 | Inherited k \<Rightarrow> Inl TypeError)) = Inr b"
        using flt by (auto simp: lowered_labels_eq get_prop_def split: option.splits)
    qed
    with False show ?thesis by (simp add: filterByPriority_def)
  qed
  then obtain prioritized where p: "filterByPriority ?ts flt = Inr prioritized" by blast
  then have "set prioritized \<subseteq> set tasks"
    using sub filterByPriority_filter [OF p] by auto
  then have "\<exists>ts. mapE (with_score now) prioritized = Inr ts"
    using wf by (intro mapE_total) (auto simp: with_score_def scoreTask_eq)
  then show ?thesis using p by (auto simp: rank_def topTasks_def)
qed

text \<open>The definitions that evaluate a ranking on a concrete input.\<close>

lemmas eval_rank = rank_def available_def filtered_def filterByPriority_def topTasks_def
  with_score_def scoreTask_def lowered_labels_def label_text_def toLowerCase_def lower_char_def
  upper_chars_def lower_chars_def js_sort_def scored_def task_key_def js_or_def truthy_def
  js_String_def dec.simps

section \<open>The ranked output\<close>

text \<open>
  C1. For every candidate list, claimed-id set, set of PR-linked ids and priority
  filter, no task of the ranked output has its key \<^verbatim>\<open>String(t.number || t.id)\<close> in
  the claimed set. The ranking returns a list whenever the labels of the candidates are
  well formed and the filter is not the name of a property of \<^verbatim>\<open>Object.prototype\<close>;
  otherwise it can only throw a TypeError, and then there is no output.
\<close>

theorem ranked_excludes_claimed:
  "(rank now tasks claimedIds prLinkedIssues flt = Inr out \<longrightarrow>
      (\<forall>x\<in>set out. task_key x \<notin> claimedIds))
   \<and> ((\<forall>t\<in>set tasks. well_formed_labels t) \<and> flt \<notin> set object_prototype_keys \<longrightarrow>
      (\<exists>r. rank now tasks claimedIds prLinkedIssues flt = Inr r))"
proof (intro conjI impI)
  assume "rank now tasks claimedIds prLinkedIssues flt = Inr out"
  from rank_shape [OF this] obtain Q where
    "out = take 5 (js_sort (\<lambda>a b. score b - score a)
            (map (\<lambda>t. scored t (score_of now t))
              (filter (\<lambda>t. task_key t \<notin> claimedIds \<and> task_key t \<notin> prLinkedIssues \<and> Q t) tasks)))"
    by blast
  then have "set out \<subseteq> (\<lambda>t. scored t (score_of now t)) `
      {t \<in> set tasks. task_key t \<notin> claimedIds \<and> task_key t \<notin> prLinkedIssues \<and> Q t}"
    using set_take_subset [of 5] by (fastforce simp: set_js_sort)
  then show "\<forall>x\<in>set out. task_key x \<notin> claimedIds" by auto
next
  assume "(\<forall>t\<in>set tasks. well_formed_labels t) \<and> flt \<notin> set object_prototype_keys"
  then show "\<exists>r. rank now tasks claimedIds prLinkedIssues flt = Inr r"
    using rank_total by blast
qed

text \<open>
  With task 1 claimed, the scenario's candidates rank to the critical task alone, whose
  key is not claimed.
\<close>

theorem ranked_excludes_claimed_witness:
  "rank 0 [ex_bug 0, ex_critical] {''1''} {} ''all'' = Inr [scored ex_critical 100]
   \<and> task_key (scored ex_critical 100) \<notin> {''1''}
   \<and> (\<exists>r. rank 0 [ex_bug 0, ex_critical] {''1''} {} ''bugs'' = Inr r)"
proof -
  have r: "rank 0 [ex_bug 0, ex_critical] {''1''} {} ''all'' = Inr [scored ex_critical 100]"
    by (simp add: eval_rank ex_bug_def ex_critical_def)
  have wf: "(\<forall>t\<in>set [ex_bug 0, ex_critical]. well_formed_labels t)
      \<and> ''bugs'' \<notin> set object_prototype_keys"
    by (simp add: well_formed_labels_def label_list_def ex_bug_def ex_critical_def
        object_prototype_keys_def)
  note th = ranked_excludes_claimed [of 0 "[ex_bug 0, ex_critical]" "{''1''}" "{}" _ _]
  from th [of "''all''" "[scored ex_critical 100]"] r
  have "\<forall>x\<in>set [scored ex_critical 100]. task_key x \<notin> {''1''}" by blast
  then have k: "task_key (scored ex_critical 100) \<notin> {''1''}" by simp
  from th [of "''bugs''" "[]"] wf
  have "\<exists>r. rank 0 [ex_bug 0, ex_critical] {''1''} {} ''bugs'' = Inr r" by blast
  with r k show ?thesis by blast
qed

text \<open>
  The PR-linked ids are excluded in the same way.
\<close>

lemma ranked_excludes_pr_linked:
  assumes "rank now tasks claimedIds prLinkedIssues flt = Inr out" "x \<in> set out"
  shows "task_key x \<notin> prLinkedIssues"
proof -
  from rank_shape [OF assms(1)] obtain Q where
    "out = take 5 (js_sort (\<lambda>a b. score b - score a)
            (map (\<lambda>t. scored t (score_of now t))
              (filter (\<lambda>t. task_key t \<notin> claimedIds \<and> task_key t \<notin> prLinkedIssues \<and> Q t) tasks)))"
    by blast
  then have "set out \<subseteq> (\<lambda>t. scored t (score_of now t)) `
      {t \<in> set tasks. task_key t \<notin> claimedIds \<and> task_key t \<notin> prLinkedIssues \<and> Q t}"
    using set_take_subset [of 5] by (fastforce simp: set_js_sort)
  with assms(2) show ?thesis by auto
qed

text \<open>
  C2. For every task with well-formed labels \<^verbatim>\<open>scoreTask\<close> returns the sum of 100
  if some lower-cased label contains \<^verbatim>\<open>critical\<close> or \<^verbatim>\<open>p0\<close>, 50 for
  \<^verbatim>\<open>high\<close> or \<^verbatim>\<open>p1\<close>, 40 for \<^verbatim>\<open>security\<close>, 20 for \<^verbatim>\<open>small\<close> or
  \<^verbatim>\<open>quick\<close>, and 10 if a label is \<^verbatim>\<open>bug\<close> and the task was created more than
  30 days before now (a label object without a name makes it throw a TypeError). For the
  candidates "bug, created 40 days ago" (id 1) and "critical" (id 2), nothing claimed
  and the filter \<^verbatim>\<open>all\<close>, the ranking is task 2 with score 100, then task 1 with
  score 10.
\<close>

theorem scoreTask_sum:
  "scoreTask now t =
     (if well_formed_labels t then
        Inr ((if \<exists>l\<in>set (label_texts t). sublist ''critical'' l \<or> sublist ''p0'' l then 100 else 0)
           + (if \<exists>l\<in>set (label_texts t). sublist ''high'' l \<or> sublist ''p1'' l then 50 else 0)
           + (if \<exists>l\<in>set (label_texts t). sublist ''security'' l then 40 else 0)
           + (if \<exists>l\<in>set (label_texts t). sublist ''small'' l \<or> sublist ''quick'' l then 20 else 0)
           + (if ''bug'' \<in> set (label_texts t)
                 \<and> (\<exists>c. createdAt t = At c \<and> now - c > 30 * 86400000) then 10 else 0))
      else Inl TypeError)
   \<and> rank now [ex_bug now, ex_critical] {} {} ''all''
       = Inr [scored ex_critical 100, scored (ex_bug now) 10]"
proof
  show "scoreTask now t =
     (if well_formed_labels t then
        Inr ((if \<exists>l\<in>set (label_texts t). sublist ''critical'' l \<or> sublist ''p0'' l then 100 else 0)
           + (if \<exists>l\<in>set (label_texts t). sublist ''high'' l \<or> sublist ''p1'' l then 50 else 0)
           + (if \<exists>l\<in>set (label_texts t). sublist ''security'' l then 40 else 0)
           + (if \<exists>l\<in>set (label_texts t). sublist ''small'' l \<or> sublist ''quick'' l then 20 else 0)
           + (if ''bug'' \<in> set (label_texts t)
                 \<and> (\<exists>c. createdAt t = At c \<and> now - c > 30 * 86400000) then 10 else 0))
      else Inl TypeError)"
    by (rule scoreTask_eq)
  show "rank now [ex_bug now, ex_critical] {} {} ''all''
       = Inr [scored ex_critical 100, scored (ex_bug now) 10]"
    by (simp add: eval_rank ex_bug_def ex_critical_def)
qed

text \<open>
  A task labelled P0-Critical, Security and bug, created 57 days before now, scores
  100 + 40 + 10.
\<close>

theorem scoreTask_sum_witness:
  "scoreTask 5000000000 ex_labelled = Inr 150
   \<and> rank 5000000000 [ex_bug 5000000000, ex_critical] {} {} ''all''
       = Inr [scored ex_critical 100, scored (ex_bug 5000000000) 10]"
proof -
  have wf: "well_formed_labels ex_labelled"
    by (simp add: well_formed_labels_def label_list_def ex_labelled_def)
  have lt: "label_texts ex_labelled = [''p0-critical'', ''security'', ''bug'']"
    by (simp add: label_texts_def label_list_def ex_labelled_def toLowerCase_def lower_char_def
        upper_chars_def lower_chars_def)
  have cr: "createdAt ex_labelled = At 0" by (simp add: ex_labelled_def)
  from scoreTask_sum [of 5000000000 ex_labelled] show ?thesis
    unfolding lt by (simp add: wf cr str_includes_iff [symmetric])
qed

text \<open>
  C3, as the code has it. For every candidate list and every filter, the ranked output
  has at most five tasks, its scores never increase (equal scores can follow one
  another), and it lists candidates in the strict total order \<open>ranks_before\<close>: each
  output task is the candidate at some position with its score, a task with a higher
  score comes first, and tasks with equal scores come in the order of their positions in
  the input.
\<close>

theorem ranked_order:
  assumes "rank now tasks claimedIds prLinkedIssues flt = Inr out"
  shows "length out \<le> 5
     \<and> sorted_wrt (\<lambda>a b. score a \<ge> score b) out
     \<and> (\<exists>is. sorted_wrt (ranks_before now tasks) is
            \<and> (\<forall>i\<in>set is. i < length tasks)
            \<and> out = map (\<lambda>i. scored (tasks ! i) (score_of now (tasks ! i))) is)"
proof -
  from rank_shape [OF assms] obtain Q where out:
    "out = take 5 (js_sort (\<lambda>a b. score b - score a)
            (map (\<lambda>t. scored t (score_of now t))
              (filter (\<lambda>t. task_key t \<notin> claimedIds \<and> task_key t \<notin> prLinkedIssues \<and> Q t) tasks)))"
    by blast
  define keep where "keep = (\<lambda>t. task_key t \<notin> claimedIds \<and> task_key t \<notin> prLinkedIssues \<and> Q t)"
  define is0 where "is0 = filter (\<lambda>i. keep (tasks ! i)) [0..<length tasks]"
  define g where "g = (\<lambda>i. scored (tasks ! i) (score_of now (tasks ! i)))"
  define sc where "sc = (\<lambda>i. score_of now (tasks ! i))"
  define js where "js = take 5 (js_sort (\<lambda>a b. sc b - sc a) is0)"
  have "map (\<lambda>t. scored t (score_of now t)) (filter keep tasks) = map g is0"
    unfolding is0_def g_def by (subst filter_indices [of keep tasks]) (simp add: comp_def)
  then have "out = take 5 (js_sort (\<lambda>a b. score b - score a) (map g is0))"
    using out keep_def by simp
  also have "js_sort (\<lambda>a b. score b - score a) (map g is0)
      = map g (js_sort (\<lambda>a b. score (g b) - score (g a)) is0)"
    by (rule js_sort_map)
  also have "(\<lambda>a b. score (g b) - score (g a)) = (\<lambda>a b. sc b - sc a)"
    by (simp add: g_def sc_def)
  finally have o: "out = map g js" by (simp add: js_def take_map)
  have "sorted_wrt (<) is0" unfolding is0_def by (intro sorted_wrt_filter) simp
  then have "sorted_wrt (\<lambda>i j. sc i > sc j \<or> (sc i = sc j \<and> i < j)) (js_sort (\<lambda>a b. sc b - sc a) is0)"
    by (rule js_sort_ranked)
  then have srt: "sorted_wrt (\<lambda>i j. sc i > sc j \<or> (sc i = sc j \<and> i < j)) js"
    unfolding js_def by (rule sorted_wrt_take)
  have rb: "ranks_before now tasks = (\<lambda>i j. sc i > sc j \<or> (sc i = sc j \<and> i < j))"
    by (intro ext) (simp add: ranks_before_def sc_def)
  have "set js \<subseteq> set is0" unfolding js_def using set_take_subset [of 5] by (fastforce simp: set_js_sort)
  then have bound: "\<forall>i\<in>set js. i < length tasks" by (auto simp: is0_def)
  have len: "length out \<le> 5" using o by (simp add: js_def)
  have "sorted_wrt (\<lambda>i j. sc i \<ge> sc j) js"
    using srt by (rule sorted_wrt_mono_rel [rotated]) auto
  then have desc: "sorted_wrt (\<lambda>a b. score a \<ge> score b) out"
    unfolding o by (simp add: sorted_wrt_map g_def sc_def)
  from len desc srt bound o show ?thesis unfolding rb g_def by blast
qed

text \<open>
  Two unlabelled tasks around a critical one: the critical task moves to the front, the
  two others keep their order.
\<close>

theorem ranked_order_witness:
  "rank 0 [ex_plain 3, ex_critical, ex_plain 4] {} {} ''all''
     = Inr [scored ex_critical 100, scored (ex_plain 3) 0, scored (ex_plain 4) 0]
   \<and> length [scored ex_critical 100, scored (ex_plain 3) 0, scored (ex_plain 4) 0] \<le> 5
   \<and> sorted_wrt (\<lambda>a b. score a \<ge> score b)
        [scored ex_critical 100, scored (ex_plain 3) 0, scored (ex_plain 4) 0]
   \<and> (\<exists>is. sorted_wrt (ranks_before 0 [ex_plain 3, ex_critical, ex_plain 4]) is
          \<and> (\<forall>i\<in>set is. i < length [ex_plain 3, ex_critical, ex_plain 4])
          \<and> [scored ex_critical 100, scored (ex_plain 3) 0, scored (ex_plain 4) 0]
              = map (\<lambda>i. scored ([ex_plain 3, ex_critical, ex_plain 4] ! i)
                        (score_of 0 ([ex_plain 3, ex_critical, ex_plain 4] ! i))) is)"
proof -
  have r: "rank 0 [ex_plain 3, ex_critical, ex_plain 4] {} {} ''all''
     = Inr [scored ex_critical 100, scored (ex_plain 3) 0, scored (ex_plain 4) 0]"
    by (simp add: eval_rank ex_plain_def ex_critical_def)
  from ranked_order [OF r] r show ?thesis by blast
qed

text \<open>
  C3 as stated fails: the scores of the output are not strictly descending. Two tasks
  without labels both score 0 and both are ranked.
\<close>

theorem ranked_equal_scores_not_strict:
  "rank 0 [ex_plain 3, ex_plain 4] {} {} ''all'' = Inr [scored (ex_plain 3) 0, scored (ex_plain 4) 0]
   \<and> \<not> sorted_wrt (\<lambda>a b. score a > score b) [scored (ex_plain 3) 0, scored (ex_plain 4) 0]"
  by (simp add: eval_rank ex_plain_def)

section \<open>Pull requests and the issues they link\<close>

lemma word_before_Cons [simp]: "word_before pw (c # pre) = word_before (is_word c) pre"
  by (simp add: word_before_def)

lemma word_before_Nil [simp]: "word_before pw [] = pw"
  by (simp add: word_before_def)

lemma matchAll_set:
  assumes iso: "\<And>pw c cs d n. m pw (c # cs) = Some (d, n) \<Longrightarrow>
      \<forall>pre suf. cs = pre @ suf \<and> length pre < n - 1 \<and> suf \<noteq> [] \<longrightarrow>
        m (word_before (is_word c) pre) suf = None"
  shows "(\<forall>pre suf. s = pre @ suf \<and> length pre < skip \<and> suf \<noteq> [] \<longrightarrow> m (word_before pw pre) suf = None)
    \<Longrightarrow> set (matchAll m skip pw s) =
        {d. \<exists>pre suf n. s = pre @ suf \<and> suf \<noteq> [] \<and> m (word_before pw pre) suf = Some (d, n)}"
proof (induction s arbitrary: skip pw)
  case Nil
  then show ?case by simp
next
  case (Cons c cs)
  let ?tailset = "{d. \<exists>pre suf n. cs = pre @ suf \<and> suf \<noteq> [] \<and> m (word_before (is_word c) pre) suf = Some (d, n)}"
  have split: "{d. \<exists>pre suf n. c # cs = pre @ suf \<and> suf \<noteq> [] \<and> m (word_before pw pre) suf = Some (d, n)}
      = {d. \<exists>n. m pw (c # cs) = Some (d, n)} \<union> ?tailset"
    (is "?L = ?H \<union> _")
  proof (intro set_eqI iffI)
    fix d assume "d \<in> ?L"
    then obtain pre suf n where e: "c # cs = pre @ suf" "suf \<noteq> []" "m (word_before pw pre) suf = Some (d, n)"
      by blast
    show "d \<in> ?H \<union> ?tailset"
    proof (cases pre)
      case Nil
      with e show ?thesis by auto
    next
      case (Cons a pre')
      with e have "cs = pre' @ suf" "a = c" by auto
      with e Cons show ?thesis by auto
    qed
  next
    fix d assume "d \<in> ?H \<union> ?tailset"
    then show "d \<in> ?L"
    proof
      assume "d \<in> ?H"
      then obtain n where "m pw (c # cs) = Some (d, n)" by blast
      then have "c # cs = [] @ (c # cs) \<and> c # cs \<noteq> [] \<and> m (word_before pw []) (c # cs) = Some (d, n)"
        by simp
      then show ?thesis by blast
    next
      assume "d \<in> ?tailset"
      then obtain pre suf n where "cs = pre @ suf" "suf \<noteq> []" "m (word_before (is_word c) pre) suf = Some (d, n)"
        by blast
      then have "c # cs = (c # pre) @ suf \<and> suf \<noteq> [] \<and> m (word_before pw (c # pre)) suf = Some (d, n)"
        by simp
      then show ?thesis by blast
    qed
  qed
  show ?case
  proof (cases "0 < skip")
    case True
    have none: "m pw (c # cs) = None"
    proof -
      have "c # cs = [] @ (c # cs) \<and> length ([] :: string) < skip \<and> c # cs \<noteq> []"
        using True by simp
      with Cons.prems have "m (word_before pw []) (c # cs) = None" by blast
      then show ?thesis by simp
    qed
    have pre: "\<forall>pre suf. cs = pre @ suf \<and> length pre < skip - 1 \<and> suf \<noteq> [] \<longrightarrow>
        m (word_before (is_word c) pre) suf = None"
    proof (intro allI impI)
      fix pre suf assume a: "cs = pre @ suf \<and> length pre < skip - 1 \<and> suf \<noteq> []"
      then have "c # cs = (c # pre) @ suf \<and> length (c # pre) < skip \<and> suf \<noteq> []" by auto
      with Cons.prems have "m (word_before pw (c # pre)) suf = None" by blast
      then show "m (word_before (is_word c) pre) suf = None" by simp
    qed
    from Cons.IH [OF pre] True none show ?thesis unfolding split by simp
  next
    case False
    then have z: "skip = 0" by simp
    show ?thesis
    proof (cases "m pw (c # cs)")
      case None
      have "set (matchAll m 0 (is_word c) cs) = ?tailset"
        by (rule Cons.IH) simp
      with None z show ?thesis unfolding split by simp
    next
      case (Some a)
      obtain d n where a: "a = (d, n)" by (cases a)
      have "set (matchAll m (n - 1) (is_word c) cs) = ?tailset"
        by (rule Cons.IH) (use iso Some a in blast)
      with Some a z show ?thesis unfolding split by auto
    qed
  qed
qed

lemma matchAll_set0:
  assumes "\<And>pw c cs d n. m pw (c # cs) = Some (d, n) \<Longrightarrow>
      \<forall>pre suf. cs = pre @ suf \<and> length pre < n - 1 \<and> suf \<noteq> [] \<longrightarrow>
        m (word_before (is_word c) pre) suf = None"
  shows "set (matchAll m 0 pw s) =
        {d. \<exists>pre suf n. s = pre @ suf \<and> suf \<noteq> [] \<and> m (word_before pw pre) suf = Some (d, n)}"
  by (rule matchAll_set [OF assms]) simp_all


lemma takeWhile_all_append:
  "list_all P xs \<Longrightarrow> ys = [] \<or> \<not> P (hd ys) \<Longrightarrow> takeWhile P (xs @ ys) = xs"
  by (induction xs) (auto simp: takeWhile_eq_Nil_iff)

lemma dropWhile_all_append:
  "list_all P xs \<Longrightarrow> ys = [] \<or> \<not> P (hd ys) \<Longrightarrow> dropWhile P (xs @ ys) = ys"
  by (induction xs) (auto simp: dropWhile_eq_self_iff)

lemma hash_not_space: "\<not> is_space (CHR ''#'')"
  by (simp add: is_space_def)

lemma closing_tail_iff:
  "closing_tail r = Some (d, n) \<longleftrightarrow>
     (\<exists>ws rest. r = ws @ ''#'' @ d @ rest \<and> ws \<noteq> [] \<and> list_all is_space ws
        \<and> d \<noteq> [] \<and> list_all is_digit d \<and> (rest = [] \<or> \<not> is_digit (hd rest))
        \<and> n = length ws + 1 + length d)"
  (is "?L \<longleftrightarrow> ?R")
proof
  assume l: ?L
  define ws where "ws = takeWhile is_space r"
  from l have ws: "ws \<noteq> []" by (auto simp: closing_tail_def ws_def Let_def split: if_splits)
  from l ws obtain h r2 where dr: "dropWhile is_space r = h # r2"
    by (auto simp: closing_tail_def ws_def Let_def split: if_splits list.splits)
  from l ws dr have h: "h = CHR ''#''" and d: "d = takeWhile is_digit r2" and dn: "d \<noteq> []"
    and n: "n = length ws + 1 + length d"
    by (auto simp: closing_tail_def ws_def Let_def split: if_splits)
  have "r = ws @ dropWhile is_space r" by (simp add: ws_def)
  also have "dropWhile is_space r = ''#'' @ d @ dropWhile is_digit r2"
    using dr h d by simp
  finally have r: "r = ws @ ''#'' @ d @ dropWhile is_digit r2" .
  have "list_all is_space ws" unfolding ws_def list_all_iff by (auto dest: set_takeWhileD)
  moreover have "list_all is_digit d" unfolding d list_all_iff by (auto dest: set_takeWhileD)
  moreover have "dropWhile is_digit r2 = [] \<or> \<not> is_digit (hd (dropWhile is_digit r2))"
    using hd_dropWhile [of is_digit r2] by blast
  ultimately show ?R using r ws dn n by blast
next
  assume ?R
  then obtain ws rest where r: "r = ws @ ''#'' @ d @ rest" and ws: "ws \<noteq> []" "list_all is_space ws"
    and d: "d \<noteq> []" "list_all is_digit d" and rest: "rest = [] \<or> \<not> is_digit (hd rest)"
    and n: "n = length ws + 1 + length d"
    by blast
  have tw: "takeWhile is_space r = ws" unfolding r
    by (rule takeWhile_all_append [OF ws(2)]) (simp add: hash_not_space)
  have dw: "dropWhile is_space r = CHR ''#'' # (d @ rest)" unfolding r
    using dropWhile_all_append [OF ws(2), of "''#'' @ d @ rest"] by (simp add: hash_not_space)
  have td: "takeWhile is_digit (d @ rest) = d"
    by (rule takeWhile_all_append [OF d(2) rest])
  show ?L using tw dw td ws d n by (simp add: closing_tail_def Let_def)
qed

lemma keyword_at_iff:
  "keyword_at k s = Some (d, n) \<longleftrightarrow>
     (\<exists>k' ws rest. s = k' @ ws @ ''#'' @ d @ rest \<and> map ascii_lower k' = k
        \<and> ws \<noteq> [] \<and> list_all is_space ws
        \<and> d \<noteq> [] \<and> list_all is_digit d \<and> (rest = [] \<or> \<not> is_digit (hd rest))
        \<and> n = length k + length ws + 1 + length d)"
  (is "?L \<longleftrightarrow> ?R")
proof
  assume l: ?L
  then have len: "length k \<le> length s" and low: "map ascii_lower (take (length k) s) = k"
    by (auto simp: keyword_at_def split: if_splits)
  from l len low obtain n' where ct: "closing_tail (drop (length k) s) = Some (d, n')"
    and n: "n = length k + n'"
    by (auto simp: keyword_at_def split: option.splits)
  from ct obtain ws rest where r: "drop (length k) s = ws @ ''#'' @ d @ rest"
     and p: "ws \<noteq> []" "list_all is_space ws" "d \<noteq> []" "list_all is_digit d"
       "rest = [] \<or> \<not> is_digit (hd rest)" "n' = length ws + 1 + length d"
    unfolding closing_tail_iff by blast
  have "s = take (length k) s @ drop (length k) s" by simp
  then have "s = take (length k) s @ ws @ ''#'' @ d @ rest" using r by simp
  with low p n show ?R by (intro exI [of _ "take (length k) s"] exI [of _ ws] exI [of _ rest]) simp
next
  assume ?R
  then obtain k' ws rest where s: "s = k' @ ws @ ''#'' @ d @ rest" and k: "map ascii_lower k' = k"
     and p: "ws \<noteq> []" "list_all is_space ws" "d \<noteq> []" "list_all is_digit d"
       "rest = [] \<or> \<not> is_digit (hd rest)" and n: "n = length k + length ws + 1 + length d"
    by blast
  have lk: "length k' = length k" using k by auto
  have "closing_tail (ws @ ''#'' @ d @ rest) = Some (d, length ws + 1 + length d)"
    unfolding closing_tail_iff using p by blast
  then show ?L using s k lk n by (simp add: keyword_at_def)
qed


lemma space_lower_all:
  "list_all (\<lambda>c. ascii_lower c = c) [CHR 0x09, CHR 0x0A, CHR 0x0B, CHR 0x0C, CHR 0x0D, CHR 0x20, CHR 0xA0]"
  by (simp add: ascii_lower_def)

lemma space_lower: "is_space c \<Longrightarrow> ascii_lower c = c"
  using space_lower_all unfolding is_space_def list_all_iff by blast

lemma keyword_no_space_all: "list_all (\<lambda>k. list_all (\<lambda>c. \<not> is_space c) k) closing_keywords"
  by (simp add: closing_keywords_def is_space_def)

lemma keyword_no_space: "k \<in> set closing_keywords \<Longrightarrow> c \<in> set k \<Longrightarrow> \<not> is_space c"
  using keyword_no_space_all unfolding list_all_iff by blast

lemma keyword_at_space_pos:
  assumes "keyword_at k s = Some x" "k \<in> set closing_keywords"
  shows "length k < length s \<and> is_space (s ! length k) \<and> (\<forall>i<length k. \<not> is_space (s ! i))"
proof -
  obtain d n where x: "x = (d, n)" by (cases x)
  from assms(1) [unfolded x keyword_at_iff] obtain k' ws rest where
    s: "s = k' @ ws @ ''#'' @ d @ rest" and k: "map ascii_lower k' = k"
    and ws: "ws \<noteq> []" "list_all is_space ws"
    by blast
  have lk: "length k' = length k" using k by auto
  have a: "length k < length s" using s lk ws by simp
  have "s ! length k = hd ws" using s lk ws by (simp add: nth_append hd_conv_nth)
  then have b: "is_space (s ! length k)" using ws by (cases ws) auto
  have c: "\<forall>i<length k. \<not> is_space (s ! i)"
  proof (intro allI impI notI)
    fix i assume i: "i < length k" and sp: "is_space (s ! i)"
    have e: "s ! i = k' ! i" using s lk i by (simp add: nth_append)
    have "k ! i = ascii_lower (k' ! i)" using k i lk by (metis nth_map)
    then have "k ! i = k' ! i" using sp e space_lower by simp
    then have "is_space (k ! i)" using sp e by simp
    moreover have "k ! i \<in> set k" using i by simp
    ultimately show False using keyword_no_space [OF assms(2)] by blast
  qed
  from a b c show ?thesis by blast
qed

lemma keyword_at_unique:
  assumes "keyword_at k1 s = Some x1" "k1 \<in> set closing_keywords"
      and "keyword_at k2 s = Some x2" "k2 \<in> set closing_keywords"
  shows "k1 = k2"
proof -
  note p1 = keyword_at_space_pos [OF assms(1,2)]
  note p2 = keyword_at_space_pos [OF assms(3,4)]
  have n12: "\<not> length k1 < length k2"
  proof
    assume "length k1 < length k2"
    with p2 have "\<not> is_space (s ! length k1)" by blast
    with p1 show False by blast
  qed
  have n21: "\<not> length k2 < length k1"
  proof
    assume "length k2 < length k1"
    with p1 have "\<not> is_space (s ! length k2)" by blast
    with p2 show False by blast
  qed
  from n12 n21 have len: "length k1 = length k2" by linarith
  have e1: "k1 = map ascii_lower (take (length k1) s)"
    using assms(1) by (auto simp: keyword_at_def split: if_splits)
  have e2: "k2 = map ascii_lower (take (length k2) s)"
    using assms(3) by (auto simp: keyword_at_def split: if_splits)
  show ?thesis by (subst e1, subst e2, simp only: len)
qed

lemma first_success_SomeD: "first_success f xs = Some y \<Longrightarrow> \<exists>x\<in>set xs. f x = Some y"
  by (induction xs) (auto split: option.splits)

lemma first_success_unique:
  "x \<in> set xs \<Longrightarrow> f x = Some y \<Longrightarrow> \<forall>x'\<in>set xs. \<forall>y'. f x' = Some y' \<longrightarrow> x' = x
     \<Longrightarrow> first_success f xs = Some y"
proof (induction xs)
  case Nil
  then show ?case by simp
next
  case (Cons a xs)
  show ?case
  proof (cases "f a")
    case None
    with Cons.prems(2) have "a \<noteq> x" by auto
    with Cons.prems(1) have "x \<in> set xs" by simp
    moreover have "\<forall>x'\<in>set xs. \<forall>y'. f x' = Some y' \<longrightarrow> x' = x" using Cons.prems(3) by simp
    ultimately have "first_success f xs = Some y" using Cons.IH Cons.prems(2) by blast
    with None show ?thesis by simp
  next
    case (Some z)
    then have "a = x" using Cons.prems(3) by simp
    with Some Cons.prems(2) show ?thesis by simp
  qed
qed

lemma closing_at_iff:
  "closing_at pw s = Some (d, n) \<longleftrightarrow>
     \<not> pw \<and> (\<exists>k\<in>set closing_keywords. keyword_at k s = Some (d, n))"
proof (cases pw)
  case True
  then show ?thesis by (simp add: closing_at_def)
next
  case False
  show ?thesis
  proof
    assume "closing_at pw s = Some (d, n)"
    then show "\<not> pw \<and> (\<exists>k\<in>set closing_keywords. keyword_at k s = Some (d, n))"
      using False by (auto simp: closing_at_def dest: first_success_SomeD)
  next
    assume "\<not> pw \<and> (\<exists>k\<in>set closing_keywords. keyword_at k s = Some (d, n))"
    then obtain k where k: "k \<in> set closing_keywords" "keyword_at k s = Some (d, n)" by blast
    have "first_success (\<lambda>k. keyword_at k s) closing_keywords = Some (d, n)"
    proof (rule first_success_unique [where x = k and f = "\<lambda>k. keyword_at k s"])
      show "k \<in> set closing_keywords" by (rule k(1))
      show "keyword_at k s = Some (d, n)" by (rule k(2))
      show "\<forall>x'\<in>set closing_keywords. \<forall>y'. keyword_at x' s = Some y' \<longrightarrow> x' = k"
        using k keyword_at_unique by blast
    qed
    then show "closing_at pw s = Some (d, n)" using False by (simp add: closing_at_def)
  qed
qed


lemma upper_is_word: "list_all is_word ''ABCDEFGHIJKLMNOPQRSTUVWXYZ''"
  by (simp add: is_word_def)

lemma lower_word: "is_word (ascii_lower c) \<Longrightarrow> is_word c"
proof (cases "map_of (zip ''ABCDEFGHIJKLMNOPQRSTUVWXYZ'' ''abcdefghijklmnopqrstuvwxyz'') c")
  case None
  assume "is_word (ascii_lower c)"
  with None show ?thesis by (simp add: ascii_lower_def)
next
  case (Some l)
  then have "(c, l) \<in> set (zip ''ABCDEFGHIJKLMNOPQRSTUVWXYZ'' ''abcdefghijklmnopqrstuvwxyz'')"
    by (rule map_of_SomeD)
  then have "c \<in> set ''ABCDEFGHIJKLMNOPQRSTUVWXYZ''" by (rule set_zip_leftD)
  then show ?thesis using upper_is_word unfolding list_all_iff by blast
qed

lemma keyword_word_all: "list_all (\<lambda>k. list_all is_word k) closing_keywords"
  by (simp add: closing_keywords_def is_word_def)

lemma keyword_letters:
  assumes "k \<in> set closing_keywords" "map ascii_lower k' = k"
  shows "list_all is_word k'"
proof -
  have "\<forall>c\<in>set k. is_word c" using keyword_word_all assms(1) unfolding list_all_iff by blast
  then have "\<forall>c\<in>set k'. is_word (ascii_lower c)" using assms(2) by auto
  then show ?thesis unfolding list_all_iff using lower_word by blast
qed

lemma keyword_start_all: "list_all (\<lambda>k. k \<noteq> [] \<and> hd k \<in> set ''cfr'') closing_keywords"
  by (simp add: closing_keywords_def)

lemma closing_at_start:
  assumes "closing_at pw s = Some x"
  shows "s \<noteq> [] \<and> ascii_lower (hd s) \<in> set ''cfr''"
proof -
  obtain d n where x: "x = (d, n)" by (cases x)
  from assms [unfolded x closing_at_iff] obtain k where
    k: "k \<in> set closing_keywords" "keyword_at k s = Some (d, n)" by blast
  from k(1) have kn: "k \<noteq> []" and hk: "hd k \<in> set ''cfr''"
    using keyword_start_all unfolding list_all_iff by blast+
  from k(2) have len: "length k \<le> length s" and low: "map ascii_lower (take (length k) s) = k"
    by (auto simp: keyword_at_def split: if_splits)
  from kn len have sn: "s \<noteq> []" by auto
  have "hd k = hd (map ascii_lower (take (length k) s))" using low by simp
  also have "\<dots> = ascii_lower (hd s)" using kn sn by (cases s; cases k) auto
  finally show ?thesis using sn hk by simp
qed

lemma non_start_all:
  "list_all (\<lambda>c. ascii_lower c \<notin> set ''cfr'')
     ([CHR 0x09, CHR 0x0A, CHR 0x0B, CHR 0x0C, CHR 0x0D, CHR 0x20, CHR 0xA0] @ ''#'' @ ''0123456789'')"
  by (simp add: ascii_lower_def)

lemma non_start: "is_space c \<or> c = CHR ''#'' \<or> is_digit c \<Longrightarrow> ascii_lower c \<notin> set ''cfr''"
  using non_start_all unfolding list_all_iff is_space_def is_digit_def by auto

lemma split_inside:
  assumes "xs @ ys = pre @ suf" "length pre < length xs"
  shows "suf \<noteq> [] \<and> hd suf \<in> set xs"
proof -
  have suf: "suf = drop (length pre) (xs @ ys)" using assms(1) by simp
  have "length pre < length (xs @ ys)" using assms(2) by simp
  then have "hd (drop (length pre) (xs @ ys)) = (xs @ ys) ! length pre"
    by (rule hd_drop_conv_nth)
  also have "\<dots> = xs ! length pre" using assms(2) by (simp add: nth_append)
  finally have "hd suf \<in> set xs" using suf assms(2) by simp
  moreover have "suf \<noteq> []" using suf assms(2) by simp
  ultimately show ?thesis by blast
qed

lemma split_prefix:
  assumes "xs @ ys = pre @ suf" "length pre \<le> length xs"
  shows "set pre \<subseteq> set xs"
proof -
  have "pre = take (length pre) (xs @ ys)" using assms(1) by simp
  also have "\<dots> = take (length pre) xs" using assms(2) by simp
  finally have "pre = take (length pre) xs" .
  then show ?thesis by (metis set_take_subset)
qed

lemma closing_at_isolated:
  assumes "closing_at pw (c # cs) = Some (d, n)"
  shows "\<forall>pre suf. cs = pre @ suf \<and> length pre < n - 1 \<and> suf \<noteq> [] \<longrightarrow>
           closing_at (word_before (is_word c) pre) suf = None"
proof (intro allI impI)
  fix pre suf
  assume a: "cs = pre @ suf \<and> length pre < n - 1 \<and> suf \<noteq> []"
  from assms [unfolded closing_at_iff] obtain k where
    k: "k \<in> set closing_keywords" "keyword_at k (c # cs) = Some (d, n)" by blast
  from k(2) [unfolded keyword_at_iff] obtain k' ws rest where
    s: "c # cs = k' @ ws @ ''#'' @ d @ rest" and low: "map ascii_lower k' = k"
    and ws: "list_all is_space ws" and d: "list_all is_digit d"
    and n: "n = length k + length ws + 1 + length d"
    by blast
  have kn: "k \<noteq> []" using k(1) keyword_start_all unfolding list_all_iff by blast
  then obtain k'' where k': "k' = c # k''" using s low by (cases k') auto
  have lk: "length k' = length k" using low by auto
  have word: "list_all is_word k'" by (rule keyword_letters [OF k(1) low])
  then have cw: "is_word c" and w'': "\<forall>x\<in>set k''. is_word x" using k' by (auto simp: list_all_iff)
  define X where "X = ws @ ''#'' @ d"
  have cs: "k'' @ (X @ rest) = pre @ suf" using s k' a by (simp add: X_def)
  have n1: "n - 1 = length k'' + length X" using n lk k' by (simp add: X_def)
  have Xns: "\<forall>x\<in>set X. ascii_lower x \<notin> set ''cfr''"
  proof
    fix x assume "x \<in> set X"
    then have "is_space x \<or> x = CHR ''#'' \<or> is_digit x"
      using ws d by (auto simp: X_def list_all_iff)
    then show "ascii_lower x \<notin> set ''cfr''" by (rule non_start)
  qed
  show "closing_at (word_before (is_word c) pre) suf = None"
  proof (cases "length pre \<le> length k''")
    case True
    have "set pre \<subseteq> set k''" by (rule split_prefix [OF cs True])
    then have "pre \<noteq> [] \<longrightarrow> is_word (last pre)" using w'' last_in_set [of pre] by blast
    then have "word_before (is_word c) pre" using cw by (simp add: word_before_def)
    then show ?thesis by (simp add: closing_at_def)
  next
    case False
    then have "pre = k'' @ drop (length k'') pre"
      using cs by (metis append_eq_append_conv_if append_take_drop_id nat_le_linear)
    then obtain p2 where p2: "pre = k'' @ p2" by blast
    with cs have e: "X @ rest = p2 @ suf" by simp
    have "length p2 < length X" using a n1 p2 by simp
    from split_inside [OF e this] have "ascii_lower (hd suf) \<notin> set ''cfr''" using Xns by blast
    then show ?thesis using closing_at_start [of "word_before (is_word c) pre" suf]
      by (cases "closing_at (word_before (is_word c) pre) suf") auto
  qed
qed

lemma paren_not_digit: "\<not> is_digit (CHR '')'')"
  by (simp add: is_digit_def)

lemma title_at_iff:
  "title_at pw s = Some (d, n) \<longleftrightarrow>
     (\<exists>rest. s = ''(#'' @ d @ '')'' @ rest \<and> d \<noteq> [] \<and> list_all is_digit d \<and> n = length d + 3)"
  (is "?L \<longleftrightarrow> ?R")
proof
  assume l: ?L
  then obtain a b r where s: "s = a # b # r"
    by (auto simp: title_at_def split: list.splits)
  from l s have ab: "a = CHR ''(''" "b = CHR ''#''" and d: "d = takeWhile is_digit r" "d \<noteq> []"
    and n: "n = length d + 3"
    by (auto simp: title_at_def Let_def split: if_splits)
  from l s obtain r2 where r2: "dropWhile is_digit r = CHR '')'' # r2"
    by (auto simp: title_at_def Let_def split: if_splits list.splits)
  have "r = d @ dropWhile is_digit r" using d by simp
  then have "s = ''(#'' @ d @ '')'' @ r2" using s ab r2 by simp
  moreover have "list_all is_digit d" unfolding d list_all_iff by (auto dest: set_takeWhileD)
  ultimately show ?R using d n by blast
next
  assume ?R
  then obtain rest where s: "s = ''(#'' @ d @ '')'' @ rest" and d: "d \<noteq> []" "list_all is_digit d"
    and n: "n = length d + 3" by blast
  have t: "takeWhile is_digit (d @ '')'' @ rest) = d"
    by (rule takeWhile_all_append [OF d(2)]) (simp add: paren_not_digit)
  have dr: "dropWhile is_digit (d @ '')'' @ rest) = '')'' @ rest"
    by (rule dropWhile_all_append [OF d(2)]) (simp add: paren_not_digit)
  show ?L using t dr d n by (simp add: title_at_def s Let_def)
qed

lemma open_paren_not_digit: "\<not> is_digit (CHR ''('')"
  by (simp add: is_digit_def)

lemma title_at_isolated:
  assumes "title_at pw (c # cs) = Some (d, n)"
  shows "\<forall>pre suf. cs = pre @ suf \<and> length pre < n - 1 \<and> suf \<noteq> [] \<longrightarrow>
           title_at (word_before (is_word c) pre) suf = None"
proof (intro allI impI)
  fix pre suf
  assume a: "cs = pre @ suf \<and> length pre < n - 1 \<and> suf \<noteq> []"
  from assms [unfolded title_at_iff] obtain rest where
    s: "c # cs = ''(#'' @ d @ '')'' @ rest" and d: "list_all is_digit d" and n: "n = length d + 3"
    by blast
  define X where "X = ''#'' @ d @ '')''"
  have e: "X @ rest = pre @ suf" using s a by (simp add: X_def)
  have "length pre < length X" using a n by (simp add: X_def)
  from split_inside [OF e this] have "hd suf \<in> set X" "suf \<noteq> []" by blast+
  then have "hd suf = CHR ''#'' \<or> is_digit (hd suf) \<or> hd suf = CHR '')''"
    using d by (auto simp: X_def list_all_iff)
  then have "hd suf \<noteq> CHR ''(''"
    using open_paren_not_digit by auto
  then show "title_at (word_before (is_word c) pre) suf = None"
    using \<open>suf \<noteq> []\<close> by (cases suf) (auto simp: title_at_def split: list.splits)
qed

lemma body_matches_set: "set (matchAll closing_at 0 False b) = {d. closes_issue b d}"
proof -
  have "set (matchAll closing_at 0 False b) =
      {d. \<exists>pre suf n. b = pre @ suf \<and> suf \<noteq> [] \<and> closing_at (word_before False pre) suf = Some (d, n)}"
    by (rule matchAll_set0) (rule closing_at_isolated)
  also have "\<dots> = {d. closes_issue b d}"
  proof (intro set_eqI iffI; clarify)
    fix d pre suf n
    assume b: "b = pre @ suf" and m: "closing_at (word_before False pre) suf = Some (d, n)"
    from m [unfolded closing_at_iff] obtain k where wb: "\<not> word_before False pre"
      and k: "k \<in> set closing_keywords" "keyword_at k suf = Some (d, n)" by blast
    from k(2) [unfolded keyword_at_iff] obtain k' ws rest where
      "suf = k' @ ws @ ''#'' @ d @ rest" "map ascii_lower k' = k"
      "ws \<noteq> []" "list_all is_space ws" "d \<noteq> []" "list_all is_digit d"
      "rest = [] \<or> \<not> is_digit (hd rest)"
      by blast
    moreover have "pre = [] \<or> \<not> is_word (last pre)" using wb by (auto simp: word_before_def)
    ultimately show "closes_issue (pre @ suf) d"
      unfolding closes_issue_def using k(1) by blast
  next
    fix d assume "closes_issue b d"
    then obtain pre k' ws rest where b: "b = pre @ k' @ ws @ ''#'' @ d @ rest"
      and p: "pre = [] \<or> \<not> is_word (last pre)" and k: "map ascii_lower k' \<in> set closing_keywords"
      and r: "ws \<noteq> []" "list_all is_space ws" "d \<noteq> []" "list_all is_digit d"
        "rest = [] \<or> \<not> is_digit (hd rest)"
      unfolding closes_issue_def by blast
    define suf where "suf = k' @ ws @ ''#'' @ d @ rest"
    define n where "n = length (map ascii_lower k') + length ws + 1 + length d"
    have "keyword_at (map ascii_lower k') suf = Some (d, n)"
      unfolding keyword_at_iff suf_def n_def using r by blast
    moreover have "\<not> word_before False pre" using p by (auto simp: word_before_def)
    ultimately have "closing_at (word_before False pre) suf = Some (d, n)"
      unfolding closing_at_iff using k by blast
    moreover have "suf \<noteq> []" using r by (simp add: suf_def)
    moreover have "b = pre @ suf" using b by (simp add: suf_def)
    ultimately show "\<exists>pre suf n. b = pre @ suf \<and> suf \<noteq> [] \<and> closing_at (word_before False pre) suf = Some (d, n)"
      by blast
  qed
  finally show ?thesis .
qed

lemma title_matches_set:
  "set (matchAll title_at 0 False t) =
     {d. \<exists>pre rest. t = pre @ ''(#'' @ d @ '')'' @ rest \<and> d \<noteq> [] \<and> list_all is_digit d}"
proof -
  have "set (matchAll title_at 0 False t) =
      {d. \<exists>pre suf n. t = pre @ suf \<and> suf \<noteq> [] \<and> title_at (word_before False pre) suf = Some (d, n)}"
    by (rule matchAll_set0) (rule title_at_isolated)
  also have "\<dots> = {d. \<exists>pre rest. t = pre @ ''(#'' @ d @ '')'' @ rest \<and> d \<noteq> [] \<and> list_all is_digit d}"
    unfolding title_at_iff by auto
  finally show ?thesis .
qed

lemma branchMatch_iff:
  "branchMatch s = Some d \<longleftrightarrow> (\<exists>pre. s = pre @ ''-'' @ d \<and> d \<noteq> [] \<and> list_all is_digit d)"
proof (induction s)
  case Nil
  then show ?case by simp
next
  case (Cons c cs)
  have hy: "\<not> is_digit (CHR ''-'')" by (simp add: is_digit_def)
  show ?case
  proof (cases "c = CHR ''-'' \<and> cs \<noteq> [] \<and> list_all is_digit cs")
    case True
    have "(\<exists>pre. c # cs = pre @ ''-'' @ d \<and> d \<noteq> [] \<and> list_all is_digit d) \<longleftrightarrow> cs = d"
    proof
      assume "\<exists>pre. c # cs = pre @ ''-'' @ d \<and> d \<noteq> [] \<and> list_all is_digit d"
      then obtain pre where e: "c # cs = pre @ ''-'' @ d" and d: "list_all is_digit d" by blast
      show "cs = d"
      proof (cases pre)
        case Nil
        with e show ?thesis by simp
      next
        case (Cons a pre')
        with e have "cs = pre' @ ''-'' @ d" by simp
        then have "CHR ''-'' \<in> set cs" by simp
        with True hy show ?thesis by (auto simp: list_all_iff)
      qed
    next
      assume "cs = d"
      with True have "c # cs = [] @ ''-'' @ d \<and> d \<noteq> [] \<and> list_all is_digit d" by simp
      then show "\<exists>pre. c # cs = pre @ ''-'' @ d \<and> d \<noteq> [] \<and> list_all is_digit d" by blast
    qed
    with True show ?thesis by auto
  next
    case False
    have "(\<exists>pre. c # cs = pre @ ''-'' @ d \<and> d \<noteq> [] \<and> list_all is_digit d)
        \<longleftrightarrow> (\<exists>pre. cs = pre @ ''-'' @ d \<and> d \<noteq> [] \<and> list_all is_digit d)"
    proof
      assume "\<exists>pre. c # cs = pre @ ''-'' @ d \<and> d \<noteq> [] \<and> list_all is_digit d"
      then obtain pre where e: "c # cs = pre @ ''-'' @ d" and d: "d \<noteq> []" "list_all is_digit d" by blast
      show "\<exists>pre. cs = pre @ ''-'' @ d \<and> d \<noteq> [] \<and> list_all is_digit d"
      proof (cases pre)
        case Nil
        with e d False show ?thesis by simp
      next
        case (Cons a pre')
        with e have "cs = pre' @ ''-'' @ d" by simp
        with d show ?thesis by blast
      qed
    next
      assume "\<exists>pre. cs = pre @ ''-'' @ d \<and> d \<noteq> [] \<and> list_all is_digit d"
      then obtain pre where "cs = pre @ ''-'' @ d" "d \<noteq> []" "list_all is_digit d" by blast
      then have "c # cs = (c # pre) @ ''-'' @ d \<and> d \<noteq> [] \<and> list_all is_digit d" by simp
      then show "\<exists>pre. c # cs = pre @ ''-'' @ d \<and> d \<noteq> [] \<and> list_all is_digit d" by blast
    qed
    moreover have "branchMatch (c # cs) = branchMatch cs" using False by auto
    ultimately show ?thesis using Cons.IH by simp
  qed
qed

lemma pr_links_eq:
  "pr_links pr = {d. branch_ends_with_id pr d \<or> body_closes_id pr d \<or> title_mentions_id pr d}"
proof -
  have b: "(case branchMatch (case headRefName pr of None \<Rightarrow> [] | Some b \<Rightarrow> b) of
        None \<Rightarrow> {} | Some d \<Rightarrow> {d}) = {d. branch_ends_with_id pr d}"
  proof (cases "headRefName pr")
    case None
    then show ?thesis by (simp add: branch_ends_with_id_def)
  next
    case (Some h)
    have "(case branchMatch h of None \<Rightarrow> {} | Some d \<Rightarrow> {d}) = {d. branchMatch h = Some d}"
      by (cases "branchMatch h") auto
    also have "\<dots> = {d. branch_ends_with_id pr d}"
      unfolding branchMatch_iff branch_ends_with_id_def using Some by auto
    finally show ?thesis using Some by simp
  qed
  have c: "(case body pr of
          None \<Rightarrow> {}
        | Some b \<Rightarrow> if b = [] then {} else set (matchAll closing_at 0 False b))
      = {d. body_closes_id pr d}"
  proof (cases "body pr")
    case None
    then show ?thesis by (simp add: body_closes_id_def)
  next
    case (Some t)
    have "set (matchAll closing_at 0 False t) = {d. closes_issue t d}" by (rule body_matches_set)
    moreover have "t = [] \<Longrightarrow> {d. closes_issue t d} = {}" by (auto simp: closes_issue_def)
    ultimately show ?thesis using Some by (auto simp: body_closes_id_def)
  qed
  have t: "set (matchAll title_at 0 False (case title pr of None \<Rightarrow> [] | Some t \<Rightarrow> t))
      = {d. title_mentions_id pr d}"
  proof (cases "title pr")
    case None
    then show ?thesis by (simp add: title_mentions_id_def)
  next
    case (Some u)
    then show ?thesis unfolding title_mentions_id_def by (simp add: title_matches_set)
  qed
  show ?thesis unfolding pr_links_def b c t by blast
qed

lemma fold_union: "fold (\<lambda>pr acc. acc \<union> f pr) prs A = A \<union> (\<Union>pr\<in>set prs. f pr)"
  by (induction prs arbitrary: A) auto

text \<open>
  C8. For every list of open pull requests, the set of PR-linked ids holds exactly the
  numbers \<open>d\<close> for which some pull request has a branch name that ends in a hyphen
  and \<open>d\<close>, or a body with a word-bounded closing keyword, white space and
  \<^verbatim>\<open>#\<close>\<open>d\<close>, or a title with \<^verbatim>\<open>(#\<close>\<open>d\<close>\<^verbatim>\<open>)\<close>. When the list of pull
  requests cannot be read or parsed the set is empty, and the filter that drops
  PR-linked tasks keeps every available task.
\<close>

theorem prLinkedIssues_exact:
  "collect_prLinkedIssues (Parsed prs) =
     {d. \<exists>pr\<in>set prs. branch_ends_with_id pr d \<or> body_closes_id pr d \<or> title_mentions_id pr d}
   \<and> collect_prLinkedIssues Unreadable = {}
   \<and> collect_prLinkedIssues Malformed = {}
   \<and> collect_prLinkedIssues EmptyFile = {}
   \<and> filtered avail (collect_prLinkedIssues Unreadable) = avail
   \<and> filtered avail (collect_prLinkedIssues Malformed) = avail"
proof -
  have "collect_prLinkedIssues (Parsed prs) = (\<Union>pr\<in>set prs. pr_links pr)"
    by (simp add: collect_prLinkedIssues_def fold_union)
  also have "\<dots> = {d. \<exists>pr\<in>set prs. branch_ends_with_id pr d \<or> body_closes_id pr d \<or> title_mentions_id pr d}"
    unfolding pr_links_eq by blast
  finally show ?thesis by (simp add: collect_prLinkedIssues_def filtered_def)
qed

text \<open>The definitions that evaluate the links of a concrete pull request.\<close>

lemmas eval_links = collect_prLinkedIssues_def pr_links_def closing_at_def keyword_at_def
  closing_tail_def title_at_def closing_keywords_def is_digit_def is_space_def is_word_def
  ascii_lower_def

text \<open>
  The pull request with branch \<^verbatim>\<open>fix-12\<close>, body \<^verbatim>\<open>Fixes #7\<close> and title
  \<^verbatim>\<open>x (#3)\<close> links the issues 12, 7 and 3 and no other.
\<close>

theorem prLinkedIssues_exact_witness:
  "{d. \<exists>pr\<in>set [ex_pr]. branch_ends_with_id pr d \<or> body_closes_id pr d \<or> title_mentions_id pr d}
     = {''12'', ''7'', ''3''}"
proof -
  have e: "collect_prLinkedIssues (Parsed [ex_pr]) = {''12'', ''7'', ''3''}"
    by (simp add: eval_links ex_pr_def insert_commute)
  from prLinkedIssues_exact [of "[ex_pr]"] have
    "collect_prLinkedIssues (Parsed [ex_pr]) =
      {d. \<exists>pr\<in>set [ex_pr]. branch_ends_with_id pr d \<or> body_closes_id pr d \<or> title_mentions_id pr d}"
    by (rule conjunct1)
  with e show ?thesis by (simp only:)
qed

section \<open>Policy parsing\<close>

lemma lookup_or_own:
  "(k, v) \<in> set obj \<Longrightarrow> distinct (map fst obj) \<Longrightarrow> v \<noteq> [] \<Longrightarrow> lookup_or obj k d = Val v"
  by (simp add: lookup_or_def get_prop_def)

lemma lookup_or_unknown:
  assumes "k \<notin> fst ` set obj" "k \<notin> set object_prototype_keys"
  shows "lookup_or obj k d = Val d"
proof -
  have "map_of obj k = None" using assms(1) by (simp add: map_of_eq_None_iff)
  then show ?thesis using assms(2) by (simp add: lookup_or_def get_prop_def)
qed

lemma lookup_or_inherited:
  assumes "k \<notin> fst ` set obj" "k \<in> set object_prototype_keys"
  shows "lookup_or obj k d = Member k"
proof -
  have "map_of obj k = None" using assms(1) by (simp add: map_of_eq_None_iff)
  then show ?thesis using assms(2) by (simp add: lookup_or_def get_prop_def)
qed

text \<open>
  A selection that is neither a known label nor the name of a property of
  \<^verbatim>\<open>Object.prototype\<close> takes the default.
\<close>

lemma unknown_selection_defaults:
  assumes "sel \<notin> set object_prototype_keys"
  shows "sel \<notin> set [''All'', ''Bugs'', ''Security'', ''Features''] \<Longrightarrow> mapPriority sel = Val ''all''"
    and "sel \<notin> set [''Merged'', ''PR Created'', ''Implemented'', ''Deployed'', ''Production'']
          \<Longrightarrow> mapStopPoint sel = Val ''merged''"
    and "\<not> sublist ''(last used)'' sel \<Longrightarrow> sel \<noteq> ''Custom'' \<Longrightarrow> sel \<noteq> ''Other''
          \<Longrightarrow> sel \<notin> set [''GitHub Issues'', ''GitHub Projects'', ''GitLab Issues'', ''Local tasks.md'']
          \<Longrightarrow> mapSource h cache sel cd = Some (Val (source_only ''github''))"
proof -
  show "sel \<notin> set [''All'', ''Bugs'', ''Security'', ''Features''] \<Longrightarrow> mapPriority sel = Val ''all''"
    unfolding mapPriority_def using assms by (intro lookup_or_unknown) auto
  show "sel \<notin> set [''Merged'', ''PR Created'', ''Implemented'', ''Deployed'', ''Production'']
          \<Longrightarrow> mapStopPoint sel = Val ''merged''"
    unfolding mapStopPoint_def using assms by (intro lookup_or_unknown) auto
  show "mapSource h cache sel cd = Some (Val (source_only ''github''))"
    if a: "\<not> sublist ''(last used)'' sel" "sel \<noteq> ''Custom''" "sel \<noteq> ''Other''"
      "sel \<notin> set [''GitHub Issues'', ''GitHub Projects'', ''GitLab Issues'', ''Local tasks.md'']"
  proof -
    have "map_of sourceMap sel = None" using a by (simp add: sourceMap_def)
    then have "get_prop sourceMap sel = Absent" using assms by (simp add: get_prop_def)
    then show ?thesis using a by (simp add: mapSource_def str_includes_iff)
  qed
qed

text \<open>
  C9. Every unrecognised selection should take the default (\<^verbatim>\<open>github\<close>,
  \<^verbatim>\<open>all\<close>, \<^verbatim>\<open>merged\<close>) without an error. The selection
  \<^verbatim>\<open>constructor\<close> is none of the known labels, yet the three maps are object
  literals and find \<^verbatim>\<open>Object.prototype.constructor\<close> under that key: no default
  is taken, the function itself becomes the task source, the priority filter and the
  stopping point, and it is saved as the preference. No error is raised.
\<close>

theorem inherited_selection_not_defaulted:
  "mapPriority ''constructor'' = Member ''constructor''
   \<and> mapStopPoint ''constructor'' = Member ''constructor''
   \<and> mapSource h cache ''constructor'' customDetails = Some (Member ''constructor'')
   \<and> parseAndCachePolicy h cache
        \<lparr>resp_source = ''constructor'', resp_priority = ''constructor'',
          resp_stopPoint = ''constructor'', resp_custom = None, resp_project = None\<rparr>
      = (Inr \<lparr>taskSource = Member ''constructor'', priorityFilter = Member ''constructor'',
                stoppingPoint = Member ''constructor''\<rparr>, Some (Member ''constructor''))"
  by (simp add: mapPriority_def mapStopPoint_def mapSource_def parseAndCachePolicy_def
      merge_project_def source_is_def lookup_or_def get_prop_def sourceMap_def
      object_prototype_keys_def)

text \<open>
  C10. If the source selection is a "(last used)" option while the preference cache is
  empty, \<^verbatim>\<open>parseAndCachePolicy\<close> throws "Cached source preference not found.
  Please select a source.": no policy is returned and the cache stays empty.
\<close>

theorem last_used_with_empty_cache_throws:
  assumes "sublist ''(last used)'' (resp_source r)"
  shows "parseAndCachePolicy h None r =
     (Inl (Error ''Cached source preference not found. Please select a source.''), None)"
proof -
  have "str_includes (resp_source r) ''(last used)''" using assms
    by (simp add: str_includes_iff)
  then show ?thesis by (simp add: parseAndCachePolicy_def mapSource_def)
qed

text \<open>The selection "GitHub (last used)" with an empty cache.\<close>

theorem last_used_with_empty_cache_throws_witness:
  "parseAndCachePolicy ex_handler None ex_responses =
     (Inl (Error ''Cached source preference not found. Please select a source.''), None)"
proof -
  have "sublist ''(last used)'' (resp_source ex_responses)"
    by (simp add: ex_responses_def str_includes_iff [symmetric])
  then show ?thesis by (rule last_used_with_empty_cache_throws)
qed

section \<open>Resume\<close>

lemma find_first: "xs = pre @ t # post \<Longrightarrow> P t \<Longrightarrow> \<forall>u\<in>set pre. \<not> P u \<Longrightarrow> find P xs = Some t"
  by (induction pre arbitrary: xs) auto

lemma find_none: "\<forall>u\<in>set xs. \<not> P u \<Longrightarrow> find P xs = None"
  by (simp add: find_None_iff)

lemma stepToPhase_values: "list_all (\<lambda>(k, v). v \<noteq> []) stepToPhase"
  by (simp add: stepToPhase_def)

text \<open>The definitions that evaluate a resume in the example world.\<close>

lemmas eval_resume = resume_def findWorktreeToResume_def arg_falsy_def arg_text_def by_id_def
  by_branch_def mapStepToPhase_def lookup_or_def get_prop_def stepToPhase_def
  object_prototype_keys_def suffix_to_prefix ex_world_def ex_claim_a_def ex_claim_b_def
  ex_log_def found_def

text \<open>
  C4, as the code has it. The table of step names has distinct keys and every step name
  of the table maps to its one next phase. A step name that is not in the table (and
  does not name a property of \<^verbatim>\<open>Object.prototype\<close>) maps to the default phase
  \<^verbatim>\<open>exploration\<close>; it is not an error.
\<close>

theorem mapStepToPhase_table_or_default:
  "(\<forall>p. (s, p) \<in> set stepToPhase \<longrightarrow> mapStepToPhase s = Val p)
   \<and> distinct (map fst stepToPhase)
   \<and> (s \<notin> fst ` set stepToPhase \<and> s \<notin> set object_prototype_keys
        \<longrightarrow> mapStepToPhase s = Val ''exploration'')"
proof (intro conjI allI impI)
  show d: "distinct (map fst stepToPhase)" by (simp add: stepToPhase_def)
  fix p assume p: "(s, p) \<in> set stepToPhase"
  then have "p \<noteq> []" using stepToPhase_values by (auto simp: list_all_iff)
  with p d show "mapStepToPhase s = Val p" unfolding mapStepToPhase_def by (intro lookup_or_own)
next
  assume "s \<notin> fst ` set stepToPhase \<and> s \<notin> set object_prototype_keys"
  then show "mapStepToPhase s = Val ''exploration''"
    unfolding mapStepToPhase_def by (intro lookup_or_unknown) auto
qed

text \<open>A step of the table, and a step name that is not in it.\<close>

theorem mapStepToPhase_table_or_default_witness:
  "mapStepToPhase ''plan-approved'' = Val ''implementation''
   \<and> mapStepToPhase ''no-such-step'' = Val ''exploration''"
proof -
  have a: "(''plan-approved'', ''implementation'') \<in> set stepToPhase" by (simp add: stepToPhase_def)
  have b: "''no-such-step'' \<notin> fst ` set stepToPhase \<and> ''no-such-step'' \<notin> set object_prototype_keys"
    by (simp add: stepToPhase_def object_prototype_keys_def)
  from mapStepToPhase_table_or_default [of "''plan-approved''"] a
  have 1: "mapStepToPhase ''plan-approved'' = Val ''implementation''" by blast
  from mapStepToPhase_table_or_default [of "''no-such-step''"] b
  have 2: "mapStepToPhase ''no-such-step'' = Val ''exploration''" by blast
  from 1 2 show ?thesis by blast
qed

text \<open>
  C4 as stated fails: a step name outside the table is mapped to a phase, the default
  one, where the statement asks for an error.
\<close>

theorem mapStepToPhase_unknown_is_default:
  "''no-such-step'' \<notin> fst ` set stepToPhase
   \<and> mapStepToPhase ''no-such-step'' = Val ''exploration''"
  by (simp add: eval_resume)




text \<open>
  Without an argument and with more than one claim, the resolution finds nothing and
  the command prints that no worktree was found, unless a branch name ends in the text
  \<^verbatim>\<open>undefined\<close>.
\<close>

lemma no_argument_many_claims:
  assumes reg: "registry_file w = Content tasks" and many: "length tasks > 1"
      and nb: "\<forall>t\<in>set tasks. \<not> suffix ''undefined'' (branch t)"
      and res: "resumeArg args = None"
  shows "findWorktreeToResume w None = Inr None \<and> resume w args = (Inr NoWorktreeFound, w)"
proof -
  have "find (by_id None) tasks = None" by (intro find_none) (simp add: by_id_def)
  moreover have "find (by_branch None) tasks = None"
    using nb by (intro find_none) (simp add: by_branch_def arg_text_def)
  ultimately have "findWorktreeToResume w None = Inr None"
    using reg many by (simp add: findWorktreeToResume_def)
  then show ?thesis using res by (simp add: resume_def)
qed

text \<open>
  C6. Without an argument and with two claims in the registry the resolution should
  fail and select nothing. In the example world the first claim's branch is
  \<^verbatim>\<open>fix/handle-undefined\<close>: the search by branch runs with the argument
  \<^verbatim>\<open>undefined\<close>, \<^verbatim>\<open>endsWith\<close> reads it as the text \<^verbatim>\<open>undefined\<close>,
  and the first claim is selected and resumed.
\<close>

theorem no_argument_selects_branch_ending_undefined:
  "resumeArg [''--resume''] = None
   \<and> registry_file ex_world = Content [ex_claim_a, ex_claim_b]
   \<and> findWorktreeToResume ex_world None = Inr (Some (found ex_claim_a))
   \<and> resume ex_world [''--resume'']
       = (Inr (Resuming ''../wt/a'' (Val ''exploration'')), ex_world\<lparr>cwd := ''../wt/a''\<rparr>)"
  by (simp add: eval_resume)

text \<open>
  Without a registry file nothing is looked up, whatever the argument; a registry that
  does not parse is a SyntaxError.
\<close>

lemma findWorktreeToResume_no_registry:
  "registry_file w = Missing \<Longrightarrow> findWorktreeToResume w arg = Inr None"
  "registry_file w = Unparsable \<Longrightarrow> findWorktreeToResume w arg = Inl SyntaxError"
  by (simp_all add: findWorktreeToResume_def)

text \<open>
  C7, as the code has it. For every non-empty argument and every registry that is
  present and parses, the resolution returns the first claim whose id is the argument; if there is none, the
  first claim whose branch is the argument or ends with it; if there is none either,
  the argument itself as a path when it exists, and nothing otherwise.
\<close>

theorem findWorktreeToResume_order:
  assumes reg: "registry_file w = Content tasks" and arg: "a \<noteq> []"
  shows "(\<forall>pre t post. tasks = pre @ t # post \<and> claim_id t = a \<and> (\<forall>u\<in>set pre. claim_id u \<noteq> a)
            \<longrightarrow> findWorktreeToResume w (Some a) = Inr (Some (found t)))
       \<and> (\<forall>pre t post. (\<forall>u\<in>set tasks. claim_id u \<noteq> a)
            \<and> tasks = pre @ t # post \<and> (branch t = a \<or> suffix a (branch t))
            \<and> (\<forall>u\<in>set pre. \<not> (branch u = a \<or> suffix a (branch u)))
            \<longrightarrow> findWorktreeToResume w (Some a) = Inr (Some (found t)))
       \<and> ((\<forall>u\<in>set tasks. claim_id u \<noteq> a \<and> \<not> (branch u = a \<or> suffix a (branch u)))
            \<longrightarrow> findWorktreeToResume w (Some a) =
                  Inr (if path_exists w a then Some \<lparr>wt_path = a, wt_task = None\<rparr> else None))"
proof -
  have nf: "\<not> arg_falsy (Some a)" using arg by (simp add: arg_falsy_def)
  have id: "by_id (Some a) = (\<lambda>t. claim_id t = a)" by (intro ext) (simp add: by_id_def)
  have br: "by_branch (Some a) = (\<lambda>t. branch t = a \<or> suffix a (branch t))"
    by (intro ext) (simp add: by_branch_def arg_text_def)
  have 1: "findWorktreeToResume w (Some a) = Inr (Some (found t))"
    if "tasks = pre @ t # post" "claim_id t = a" "\<forall>u\<in>set pre. claim_id u \<noteq> a" for pre t post
  proof -
    have "find (\<lambda>t. claim_id t = a) tasks = Some t" using that by (intro find_first) auto
    then show ?thesis using reg nf by (simp add: findWorktreeToResume_def id found_def)
  qed
  have 2: "findWorktreeToResume w (Some a) = Inr (Some (found t))"
    if "\<forall>u\<in>set tasks. claim_id u \<noteq> a" "tasks = pre @ t # post" "branch t = a \<or> suffix a (branch t)"
      "\<forall>u\<in>set pre. \<not> (branch u = a \<or> suffix a (branch u))" for pre t post
  proof -
    have "find (\<lambda>t. claim_id t = a) tasks = None" using that(1) by (intro find_none) auto
    moreover have "find (\<lambda>t. branch t = a \<or> suffix a (branch t)) tasks = Some t"
      using that(2-4) by (intro find_first) auto
    ultimately show ?thesis using reg nf by (simp add: findWorktreeToResume_def id br found_def)
  qed
  have 3: "findWorktreeToResume w (Some a) =
                  Inr (if path_exists w a then Some \<lparr>wt_path = a, wt_task = None\<rparr> else None)"
    if "\<forall>u\<in>set tasks. claim_id u \<noteq> a \<and> \<not> (branch u = a \<or> suffix a (branch u))"
  proof -
    have "find (\<lambda>t. claim_id t = a) tasks = None" using that by (intro find_none) auto
    moreover have "find (\<lambda>t. branch t = a \<or> suffix a (branch t)) tasks = None"
      using that by (intro find_none) auto
    ultimately show ?thesis using reg nf arg by (simp add: findWorktreeToResume_def id br)
  qed
  from 1 2 3 show ?thesis by blast
qed

text \<open>
  In the example world: an id, a branch suffix, and an existing path that is neither.
\<close>

theorem findWorktreeToResume_order_witness:
  "findWorktreeToResume ex_world (Some ''13'') = Inr (Some (found ex_claim_b))
   \<and> findWorktreeToResume ex_world (Some ''b-13'') = Inr (Some (found ex_claim_b))
   \<and> findWorktreeToResume ex_world (Some ''../wt/c'')
       = Inr (Some \<lparr>wt_path = ''../wt/c'', wt_task = None\<rparr>)"
proof -
  have reg: "registry_file ex_world = Content [ex_claim_a, ex_claim_b]" by (simp add: ex_world_def)
  have split: "[ex_claim_a, ex_claim_b] = [ex_claim_a] @ ex_claim_b # []" by simp
  note th = findWorktreeToResume_order [OF reg]
  have 1: "findWorktreeToResume ex_world (Some ''13'') = Inr (Some (found ex_claim_b))"
  proof -
    have "[ex_claim_a, ex_claim_b] = [ex_claim_a] @ ex_claim_b # [] \<and> claim_id ex_claim_b = ''13''
        \<and> (\<forall>u\<in>set [ex_claim_a]. claim_id u \<noteq> ''13'')"
      by (simp add: ex_claim_a_def ex_claim_b_def)
    with th [of "''13''"] show ?thesis by blast
  qed
  have 2: "findWorktreeToResume ex_world (Some ''b-13'') = Inr (Some (found ex_claim_b))"
  proof -
    have "(\<forall>u\<in>set [ex_claim_a, ex_claim_b]. claim_id u \<noteq> ''b-13'')
        \<and> [ex_claim_a, ex_claim_b] = [ex_claim_a] @ ex_claim_b # []
        \<and> (branch ex_claim_b = ''b-13'' \<or> suffix ''b-13'' (branch ex_claim_b))
        \<and> (\<forall>u\<in>set [ex_claim_a]. \<not> (branch u = ''b-13'' \<or> suffix ''b-13'' (branch u)))"
      by (simp add: ex_claim_a_def ex_claim_b_def suffix_to_prefix)
    with th [of "''b-13''"] show ?thesis by blast
  qed
  have 3: "findWorktreeToResume ex_world (Some ''../wt/c'')
       = Inr (Some \<lparr>wt_path = ''../wt/c'', wt_task = None\<rparr>)"
  proof -
    have "\<forall>u\<in>set [ex_claim_a, ex_claim_b]. claim_id u \<noteq> ''../wt/c''
        \<and> \<not> (branch u = ''../wt/c'' \<or> suffix ''../wt/c'' (branch u))"
      by (simp add: ex_claim_a_def ex_claim_b_def suffix_to_prefix)
    with th [of "''../wt/c''"] have "findWorktreeToResume ex_world (Some ''../wt/c'') =
        Inr (if path_exists ex_world ''../wt/c'' then Some \<lparr>wt_path = ''../wt/c'', wt_task = None\<rparr> else None)"
      by blast
    then show ?thesis by (simp add: ex_world_def)
  qed
  from 1 2 3 show ?thesis by blast
qed

text \<open>
  C7 as stated fails: without a registry file the resolution returns nothing before it
  tries any interpretation, so an argument that is an existing path is not resolved.
  With an empty registry in place of the missing one the same path is returned.
\<close>

theorem existing_path_without_registry_not_resolved:
  "registry_file ex_world_no_registry = Missing
   \<and> path_exists ex_world_no_registry ''../wt/c''
   \<and> findWorktreeToResume ex_world_no_registry (Some ''../wt/c'') = Inr None
   \<and> findWorktreeToResume (ex_world\<lparr>registry_file := Content []\<rparr>) (Some ''../wt/c'')
       = Inr (Some \<lparr>wt_path = ''../wt/c'', wt_task = None\<rparr>)"
  by (simp add: eval_resume ex_world_no_registry_def)

end
